theory Spec2Isabelle
  imports
    Complex_Main
    "HOL-Library.Word"
    "HOL-Library.Sublist"
    "HOL-Library.Multiset"
    "HOL-Library.List_Lexorder"
begin

section \<open>JavaScript strings\<close>

text \<open>
  A JavaScript string is a sequence of UTF-16 code units; \<open>length\<close>, \<open>slice\<close>,
  the regular expressions without the \<open>u\<close> flag and the default \<open>sort\<close> all work on
  code units. A code unit is a 16-bit word and a string is a list of them.
\<close>

type_synonym jschar = "16 word"
type_synonym jsstring = "jschar list"

abbreviation TAB :: jschar where "TAB \<equiv> 9"
abbreviation LF :: jschar where "LF \<equiv> 10"
abbreviation CR :: jschar where "CR \<equiv> 13"
abbreviation SP :: jschar where "SP \<equiv> 32"

text \<open>The ASCII literals of the source, written as Isabelle strings.\<close>

definition js :: "string \<Rightarrow> jsstring" where
  "js s = map (\<lambda>c. of_nat (of_char c)) s"

text \<open>
  The class \<open>\s\<close> of a regular expression, which is also what \<open>trim\<close> removes:
  the WhiteSpace and LineTerminator code points of ECMAScript.
\<close>

definition isWs :: "jschar \<Rightarrow> bool" where
  "isWs c \<longleftrightarrow>
     c = 0x09 \<or> c = 0x0A \<or> c = 0x0B \<or> c = 0x0C \<or> c = 0x0D \<or> c = 0x20 \<or> c = 0xA0 \<or>
     c = 0x1680 \<or> (0x2000 \<le> c \<and> c \<le> 0x200A) \<or> c = 0x2028 \<or> c = 0x2029 \<or>
     c = 0x202F \<or> c = 0x205F \<or> c = 0x3000 \<or> c = 0xFEFF"

text \<open>The line terminators, which \<open>.\<close> does not match.\<close>

definition isLineTerminator :: "jschar \<Rightarrow> bool" where
  "isLineTerminator c \<longleftrightarrow> c = 0x0A \<or> c = 0x0D \<or> c = 0x2028 \<or> c = 0x2029"

text \<open>The class \<open>[ \t]\<close>.\<close>

definition isBlank :: "jschar \<Rightarrow> bool" where
  "isBlank c \<longleftrightarrow> c = SP \<or> c = TAB"

definition trim :: "jsstring \<Rightarrow> jsstring" where
  "trim s = rev (dropWhile isWs (rev (dropWhile isWs s)))"

text \<open>
  \<open>s.replace(re, r)\<close> for a global regular expression \<open>re\<close> that never matches the
  empty string: scan from the left; where a match starts, emit \<open>r\<close> and go on after the
  match, otherwise emit the code unit and go on with the next. The expression is given
  by its matcher \<open>m\<close>: \<open>m s = Some k\<close> when \<open>re\<close> matches at the start of \<open>s\<close>,
  with \<open>k \<ge> 1\<close> the length of the (greedy) match.
\<close>

function replaceAll :: "(jsstring \<Rightarrow> nat option) \<Rightarrow> jsstring \<Rightarrow> jsstring \<Rightarrow> jsstring" where
  "replaceAll m r [] = []"
| "replaceAll m r (c # cs) =
     (case m (c # cs) of
        None \<Rightarrow> c # replaceAll m r cs
      | Some k \<Rightarrow> r @ replaceAll m r (drop (k - 1) cs))"
  by pat_completeness auto
termination
  by (relation "measure (\<lambda>(m, r, s). length s)") auto

text \<open>\<open>/\r\n/\<close>\<close>

definition matchCRLF :: "jsstring \<Rightarrow> nat option" where
  "matchCRLF s = (case s of a # b # _ \<Rightarrow> if a = CR \<and> b = LF then Some 2 else None | _ \<Rightarrow> None)"

text \<open>
  \<open>/[ \t]+\n/\<close>: the run of blanks is taken greedily; a shorter run is followed by a
  blank, so only the whole run can be followed by the line feed.
\<close>

definition matchTrailing :: "jsstring \<Rightarrow> nat option" where
  "matchTrailing s =
     (let k = length (takeWhile isBlank s) in
      if 1 \<le> k \<and> take 1 (drop k s) = [LF] then Some (k + 1) else None)"

text \<open>\<open>/\n{3,}/\<close>\<close>

definition matchNewlines :: "jsstring \<Rightarrow> nat option" where
  "matchNewlines s =
     (let k = length (takeWhile (\<lambda>c. c = LF) s) in if 3 \<le> k then Some k else None)"

text \<open>\<open>/[ \t]{2,}/\<close>\<close>

definition matchBlanks :: "jsstring \<Rightarrow> nat option" where
  "matchBlanks s =
     (let k = length (takeWhile isBlank s) in if 2 \<le> k then Some k else None)"

text \<open>
  \<open>normalizeWhitespace(s)\<close>. The argument is \<open>None\<close> for \<open>undefined\<close> or \<open>null\<close>, which
  \<open>s || ""\<close> turns into the empty string.
\<close>

definition normalizeWhitespace :: "jsstring option \<Rightarrow> jsstring" where
  "normalizeWhitespace s =
     trim
      (replaceAll matchBlanks [SP]
        (replaceAll matchNewlines [LF, LF]
          (replaceAll matchTrailing [LF]
            (replaceAll matchCRLF [LF] (case s of None \<Rightarrow> [] | Some t \<Rightarrow> t)))))"

section \<open>Numbers and the clamp\<close>

text \<open>
  The numbers that reach \<open>clampInt\<close>: a finite number, or one of \<open>NaN\<close>, \<open>Infinity\<close>
  and \<open>-Infinity\<close>, on which \<open>Number.isFinite\<close> is false. The finite numbers of
  \<open>buildKB\<close> are quotients of lengths and small products; they are kept exact.
\<close>

datatype jsnum = Finite rat | NotFinite

definition trunc :: "rat \<Rightarrow> int" where
  "trunc q = (if 0 \<le> q then \<lfloor>q\<rfloor> else \<lceil>q\<rceil>)"

definition clampInt :: "jsnum \<Rightarrow> int \<Rightarrow> int \<Rightarrow> int \<Rightarrow> int" where
  "clampInt val def mn mx =
     (case val of NotFinite \<Rightarrow> def | Finite n \<Rightarrow> max mn (min mx (trunc n)))"

text \<open>\<open>a / b\<close> on integers: a division by zero gives \<open>NaN\<close> or an infinity.\<close>

definition jsDiv :: "int \<Rightarrow> int \<Rightarrow> jsnum" where
  "jsDiv a b = (if b = 0 then NotFinite else Finite (of_int a / of_int b))"

definition jsCeil :: "jsnum \<Rightarrow> jsnum" where
  "jsCeil x = (case x of NotFinite \<Rightarrow> NotFinite | Finite q \<Rightarrow> Finite (of_int \<lceil>q\<rceil>))"

definition jsFloor :: "jsnum \<Rightarrow> jsnum" where
  "jsFloor x = (case x of NotFinite \<Rightarrow> NotFinite | Finite q \<Rightarrow> Finite (of_int \<lfloor>q\<rfloor>))"

text \<open>
  The two sizing lines of \<open>buildKB\<close>:
  \<^verbatim>\<open>chunkSizeChars = clampInt(Math.ceil(totalChars / TARGET_CHUNKS), 1400, 800, 3200)\<close> and
  \<^verbatim>\<open>overlapChars = clampInt(Math.floor(chunkSizeChars * 0.12), 180, 80, 450)\<close>.
  For an integer chunk size between 800 and 3200 the double product with \<open>0.12\<close> has
  the same floor as the exact product with \<open>12/100\<close>: an exact product that is an
  integer is returned exactly, and any other is at least \<open>1/25\<close> away from an integer.
\<close>

definition chunkSizeOf :: "int \<Rightarrow> int \<Rightarrow> int" where
  "chunkSizeOf totalChars targetChunks =
     clampInt (jsCeil (jsDiv totalChars targetChunks)) 1400 800 3200"

definition overlapOf :: "int \<Rightarrow> int" where
  "overlapOf chunkSizeChars =
     clampInt (jsFloor (Finite (of_int chunkSizeChars * (12 / 100)))) 180 80 450"

text \<open>What the specification writes for the overlap: the product rounded to the nearest integer.\<close>

definition spec_overlapOf :: "int \<Rightarrow> int" where
  "spec_overlapOf chunkSizeChars =
     max 80 (min 450 (round (of_int chunkSizeChars * (12 / 100) :: rat)))"

section \<open>The chunker\<close>

text \<open>
  \<open>/\n\s*\n/\<close> at the start of \<open>s\<close>: a line feed, then the longest run of white space
  that still ends before a line feed, then that line feed. With \<open>run\<close> the white space
  after the first line feed, the match ends at the last line feed of \<open>run\<close>.
\<close>

definition matchParagraphBreak :: "jsstring \<Rightarrow> nat option" where
  "matchParagraphBreak s =
     (case s of
        [] \<Rightarrow> None
      | c # cs \<Rightarrow>
          (let run = takeWhile isWs cs in
           if c = LF \<and> LF \<in> set run
           then Some (1 + (length run - length (takeWhile (\<lambda>x. x \<noteq> LF) (rev run))))
           else None))"

text \<open>\<open>s.split(re)\<close> for an expression that never matches the empty string.\<close>

function splitLoop :: "(jsstring \<Rightarrow> nat option) \<Rightarrow> jsstring \<Rightarrow> jsstring \<Rightarrow> jsstring list" where
  "splitLoop m piece [] = [piece]"
| "splitLoop m piece (c # cs) =
     (case m (c # cs) of
        None \<Rightarrow> splitLoop m (piece @ [c]) cs
      | Some k \<Rightarrow> piece # splitLoop m [] (drop (k - 1) cs))"
  by pat_completeness auto
termination
  by (relation "measure (\<lambda>(m, piece, s). length s)") auto

definition split :: "(jsstring \<Rightarrow> nat option) \<Rightarrow> jsstring \<Rightarrow> jsstring list" where
  "split m s = splitLoop m [] s"

text \<open>The closure \<open>push\<close>: a chunk is stored trimmed, and only when something is left.\<close>

definition push :: "jsstring list \<Rightarrow> jsstring \<Rightarrow> jsstring list" where
  "push chunks t = (let v = trim t in if v \<noteq> [] then chunks @ [v] else chunks)"

text \<open>
  The hard split \<^verbatim>\<open>for (let i = 0; i < p.length; i += chunkSizeChars)\<close>. With a chunk
  size of zero the index never moves and the loop does not end; not returning is the
  value \<open>None\<close>.
\<close>

partial_function (option) hardSplit :: "nat \<Rightarrow> jsstring \<Rightarrow> nat \<Rightarrow> jsstring list \<Rightarrow> jsstring list option" where
  "hardSplit chunkSizeChars p i chunks =
     (if i < length p
      then hardSplit chunkSizeChars p (i + chunkSizeChars)
             (push chunks (take chunkSizeChars (drop i p)))
      else Some chunks)"

text \<open>
  The loop over the paragraphs, on the state \<open>(chunks, cur)\<close>. The test
  \<^verbatim>\<open>p.length > chunkSizeChars * 1.8\<close> is on integers \<open>10 * p.length > 18 * chunkSizeChars\<close>;
  \<^verbatim>\<open>Math.max(0, cur.length - overlapChars)\<close> is the subtraction of natural numbers.
\<close>

fun chunkLoop :: "nat \<Rightarrow> nat \<Rightarrow> jsstring list \<Rightarrow> jsstring list \<times> jsstring \<Rightarrow> (jsstring list \<times> jsstring) option" where
  "chunkLoop chunkSizeChars overlapChars [] st = Some st"
| "chunkLoop chunkSizeChars overlapChars (p # ps) (chunks, cur) =
     (if 18 * chunkSizeChars < 10 * length p then
        (let (chunks1, cur1) = (if trim cur \<noteq> [] then (push chunks cur, []) else (chunks, cur))
         in case hardSplit chunkSizeChars p 0 chunks1 of
              None \<Rightarrow> None
            | Some chunks2 \<Rightarrow> chunkLoop chunkSizeChars overlapChars ps (chunks2, cur1))
      else if length cur + length p + 2 \<le> chunkSizeChars then
        chunkLoop chunkSizeChars overlapChars ps
          (chunks, cur @ (if cur \<noteq> [] then [LF, LF] else []) @ p)
      else
        (let tail = drop (length cur - overlapChars) cur
         in chunkLoop chunkSizeChars overlapChars ps
              (push chunks cur, (if tail \<noteq> [] then tail @ [LF, LF] else []) @ p)))"

definition paragraphs :: "jsstring \<Rightarrow> jsstring list" where
  "paragraphs text =
     filter (\<lambda>s. s \<noteq> []) (map trim (split matchParagraphBreak (normalizeWhitespace (Some text))))"

definition chunkByParagraphs :: "jsstring \<Rightarrow> nat \<Rightarrow> nat \<Rightarrow> jsstring list option" where
  "chunkByParagraphs text chunkSizeChars overlapChars =
     (case chunkLoop chunkSizeChars overlapChars (paragraphs text) ([], []) of
        None \<Rightarrow> None
      | Some (chunks, cur) \<Rightarrow> Some (push chunks cur))"

section \<open>The corpus signature\<close>

text \<open>
  An entry of \<open>listDocs\<close>. The type \<open>'n\<close> is that of the numbers \<open>size\<close> and
  \<open>mtimeMs\<close>; how a number is written in a template literal is the parameter \<open>str\<close>
  of \<open>docSignature\<close>.
\<close>

record 'n doc_file =
  name :: jsstring
  full :: jsstring
  size_f :: 'n
  mtimeMs :: 'n
  ext :: jsstring

text \<open>\<open>xs.join(sep)\<close> on strings.\<close>

fun join :: "jsstring \<Rightarrow> jsstring list \<Rightarrow> jsstring" where
  "join sep [] = []"
| "join sep [x] = x"
| "join sep (x # y # ys) = x @ sep @ join sep (y # ys)"

definition token :: "('n \<Rightarrow> jsstring) \<Rightarrow> 'n doc_file \<Rightarrow> jsstring" where
  "token str f = name f @ js ''|'' @ str (size_f f) @ js ''|'' @ str (mtimeMs f)"

text \<open>
  The default \<open>sort()\<close> orders strings by their code units, which is the lexicographic
  order of lists of words.
\<close>

definition docSignature :: "('n \<Rightarrow> jsstring) \<Rightarrow> 'n doc_file list \<Rightarrow> jsstring" where
  "docSignature str files = join (js ''::'') (sort (map (token str) files))"

section \<open>The knowledge-base builder\<close>

text \<open>A non-negative integer in a template literal.\<close>

fun decimal :: "nat \<Rightarrow> jsstring" where
  "decimal n = (if n < 10 then [48 + of_nat n] else decimal (n div 10) @ [48 + of_nat (n mod 10)])"

declare decimal.simps [simp del]

record 'v chunk =
  cid :: jsstring
  doc :: jsstring
  chunkIndex :: nat
  text_c :: jsstring
  embedding :: "'v option"

record meta =
  createdAt :: jsstring
  embedModel :: jsstring
  chatModel :: jsstring
  targetChunks :: int
  chunkSizeChars :: int
  overlapChars :: int
  docCount :: nat
  chunkCount :: nat
  docsSignature :: jsstring

record 'v kb =
  kb_meta :: meta
  chunks :: "'v chunk list"



datatype error =
  NoDocuments | ExtractionError | EmbeddingProviderError | TypeError | UsageError | DoesNotReturn









section \<open>The retriever\<close>







section \<open>The QA merger\<close>

text \<open>
  The values \<open>JSON.parse\<close> returns. An object is the list of its properties, each key
  once. Numbers are kept as integers: the merger only tests them for truth.
\<close>

datatype json =
  JNull | JBool bool | JNum int | JStr jsstring | JArr "json list" | JObj "(jsstring \<times> json) list"

text \<open>
  What the merger takes from the runtime: the Unicode tables behind \<open>toLowerCase\<close> and
  \<open>normalize("NFD")\<close>, the conversion \<open>String(v)\<close> of a value that is not a string,
  \<open>path.basename\<close> and the clock of \<open>nowStamp\<close>.
\<close>

record runtime =
  toLowerCase :: "jsstring \<Rightarrow> jsstring"
  normalizeNFD :: "jsstring \<Rightarrow> jsstring"
  toStr :: "json \<Rightarrow> jsstring"
  basename :: "jsstring \<Rightarrow> jsstring"
  stamp :: jsstring

definition truthy :: "json \<Rightarrow> bool" where
  "truthy v =
     (case v of JNull \<Rightarrow> False | JBool b \<Rightarrow> b | JNum n \<Rightarrow> n \<noteq> 0 | JStr s \<Rightarrow> s \<noteq> []
      | JArr _ \<Rightarrow> True | JObj _ \<Rightarrow> True)"

definition String :: "runtime \<Rightarrow> json \<Rightarrow> jsstring" where
  "String rt v = (case v of JStr s \<Rightarrow> s | _ \<Rightarrow> toStr rt v)"

text \<open>
  \<open>o[k]\<close>: \<open>Inl TypeError\<close> on \<open>null\<close>, \<open>Inr None\<close> for \<open>undefined\<close>. The keys the merger
  reads are names, which only an object has as properties.
\<close>

definition getProp :: "json \<Rightarrow> jsstring \<Rightarrow> error + json option" where
  "getProp v k = (case v of JNull \<Rightarrow> Inl TypeError | JObj kvs \<Rightarrow> Inr (map_of kvs k) | _ \<Rightarrow> Inr None)"

text \<open>\<open>x || ""\<close> on a property that may be missing.\<close>

definition orEmpty :: "json option \<Rightarrow> json" where
  "orEmpty v = (case v of None \<Rightarrow> JStr [] | Some x \<Rightarrow> if truthy x then x else JStr [])"

text \<open>\<open>o[k] = v\<close> on an object under construction.\<close>

fun setProp :: "jsstring \<Rightarrow> json \<Rightarrow> (jsstring \<times> json) list \<Rightarrow> (jsstring \<times> json) list" where
  "setProp k v [] = [(k, v)]"
| "setProp k v ((k', v') # kvs) = (if k = k' then (k, v) # kvs else (k', v') # setProp k v kvs)"

text \<open>\<open>norm(s)\<close>; the characters removed last are the combining marks U+0300 to U+036F.\<close>

definition norm_s :: "runtime \<Rightarrow> json \<Rightarrow> jsstring" where
  "norm_s rt s =
     filter (\<lambda>c. \<not> (0x0300 \<le> c \<and> c \<le> 0x036F))
       (normalizeNFD rt (toLowerCase rt (trim (String rt (orEmpty (Some s))))))"

text \<open>
  \<open>detectContainer\<close>: the blocks of the index, and \<open>setBlocks\<close> as a function of the
  index read and the new blocks.
\<close>

definition containerBlocks :: "json \<Rightarrow> json list" where
  "containerBlocks k =
     (case k of
        JArr bs \<Rightarrow> bs
      | JObj kvs \<Rightarrow> (case map_of kvs (js ''blocks'') of Some (JArr bs) \<Rightarrow> bs | _ \<Rightarrow> [])
      | _ \<Rightarrow> [])"

definition setBlocks :: "json \<Rightarrow> json list \<Rightarrow> json" where
  "setBlocks k newBlocks =
     (case k of
        JArr _ \<Rightarrow> JArr newBlocks
      | JObj kvs \<Rightarrow>
          (case map_of kvs (js ''blocks'') of
             Some (JArr _) \<Rightarrow> JObj (setProp (js ''blocks'') (JArr newBlocks) kvs)
           | _ \<Rightarrow> JObj [(js ''blocks'', JArr newBlocks)])
      | _ \<Rightarrow> JObj [(js ''blocks'', JArr newBlocks)])"

fun pickKey :: "json \<Rightarrow> jsstring list \<Rightarrow> jsstring \<Rightarrow> jsstring" where
  "pickKey sample [] fallback = fallback"
| "pickKey sample (k # ks) fallback =
     (if (case sample of JObj kvs \<Rightarrow> map_of kvs k \<noteq> None | _ \<Rightarrow> False) then k
      else pickKey sample ks fallback)"

record schema =
  textKey :: jsstring
  docKey :: jsstring
  pageKey :: jsstring
  idKey :: jsstring
  tagsKey :: jsstring
  typeKey :: jsstring

definition buildQaBlockSchema :: "json list \<Rightarrow> schema" where
  "buildQaBlockSchema existingBlocks =
     (let sample = (case existingBlocks of [] \<Rightarrow> JObj [] | b # _ \<Rightarrow> b) in
      \<lparr>textKey = pickKey sample [js ''text'', js ''content'', js ''chunk'', js ''body''] (js ''text''),
       docKey = pickKey sample [js ''doc'', js ''source'', js ''fuente'', js ''file'', js ''document'']
                  (js ''doc''),
       pageKey = pickKey sample [js ''p'', js ''page'', js ''pages'', js ''pagina''] (js ''p''),
       idKey = pickKey sample [js ''id'', js ''key'', js ''uid''] (js ''id''),
       tagsKey = pickKey sample [js ''tags'', js ''etiquetas''] (js ''tags''),
       typeKey = pickKey sample [js ''type'', js ''kind''] (js ''type'')\<rparr>)"

text \<open>\<open>s.replace(/\.json$/i, "")\<close>\<close>

definition stripJsonSuffix :: "jsstring \<Rightarrow> jsstring" where
  "stripJsonSuffix s =
     (let n = length s - 5; e = drop n s in
      if length e = 5 \<and> e ! 0 = 0x2E \<and> (e ! 1 = 0x6A \<or> e ! 1 = 0x4A) \<and> (e ! 2 = 0x73 \<or> e ! 2 = 0x53)
         \<and> (e ! 3 = 0x6F \<or> e ! 3 = 0x4F) \<and> (e ! 4 = 0x6E \<or> e ! 4 = 0x4E)
      then take n s else s)"

definition topicFromFilename :: "runtime \<Rightarrow> jsstring \<Rightarrow> jsstring \<times> jsstring" where
  "topicFromFilename rt fp =
     (let base = toLowerCase rt (basename rt fp) in
      if sublist (js ''estrategia'') base then (js ''estrategia_es'', js ''Estrategia ES.pdf'')
      else if sublist (js ''universidades'') base \<or> sublist (js ''futuro'') base
        then (js ''debate_universidades_futuro'', js ''Debate universidades del futuro.pdf'')
      else if sublist (js ''autores'') base
        then (js ''autores_vs_objetivos'', js ''Autores vs Objetivos.pdf'')
      else if sublist (js ''directrices'') base \<or> sublist (js ''paises'') base
              \<or> sublist [0x70, 0x61, 0x221A, 0x2260, 0x73, 0x65, 0x73] base
        then (js ''directrices_paises'', js ''Directrices (paises).pdf'')
      else (stripJsonSuffix base, js ''QA (sin doc)''))"

text \<open>\<open>xs.join(sep)\<close> on an array of values: \<open>null\<close> gives the empty string.\<close>

definition joinValues :: "runtime \<Rightarrow> jsstring \<Rightarrow> json list \<Rightarrow> jsstring" where
  "joinValues rt sep xs = join sep (map (\<lambda>v. case v of JNull \<Rightarrow> [] | _ \<Rightarrow> String rt v) xs)"

definition padStart3 :: "jsstring \<Rightarrow> jsstring" where
  "padStart3 s = replicate (3 - length s) 0x30 @ s"

definition arrayOr :: "json option \<Rightarrow> json list" where
  "arrayOr v = (case v of Some (JArr xs) \<Rightarrow> xs | _ \<Rightarrow> [])"

text \<open>\<open>qaToBlock\<close> on a record that is not \<open>null\<close>; \<open>props\<close> reads its properties.\<close>

definition qaToBlock :: "runtime \<Rightarrow> (jsstring \<Rightarrow> json option) \<Rightarrow> schema \<Rightarrow> jsstring \<times> jsstring \<Rightarrow> nat \<Rightarrow> json" where
  "qaToBlock rt props sch topicInfo n =
     (let q = orEmpty (props (js ''question''));
          variants = arrayOr (props (js ''variants''));
          tags = arrayOr (props (js ''tags''));
          txt = trim
            (js ''Q: '' @ String rt q @ [LF]
             @ (if variants \<noteq> [] then [LF] @ js ''Variantes: '' @ joinValues rt (js '' | '') variants else [])
             @ [LF]
             @ (if tags \<noteq> [] then [LF] @ js ''Tags: '' @ joinValues rt (js '', '') tags else [])
             @ [LF, LF] @ js ''A: '' @ String rt (orEmpty (props (js ''answer''))));
          sec = (let a = orEmpty (props (js ''source_section'')) in
                 if truthy a then a
                 else let b = orEmpty (props (js ''source'')) in
                   if truthy b then b else orEmpty (props (js ''section'')));
          b0 = setProp (idKey sch)
                 (JStr (js ''qa-'' @ fst topicInfo @ js ''-'' @ padStart3 (decimal n))) [];
          b1 = setProp (typeKey sch) (JStr (js ''qa'')) b0;
          b2 = setProp (docKey sch) (JStr (snd topicInfo)) b1;
          b3 = setProp (pageKey sch) (JStr (if truthy sec then String rt sec else [])) b2;
          b4 = setProp (textKey sch) (JStr txt) b3;
          b5 = (if tagsKey sch \<noteq> [] then setProp (tagsKey sch) (JArr tags) b4 else b4);
          b6 = setProp (js ''_qa_meta'')
                 (JObj [(js ''topic'', JStr (fst topicInfo)), (js ''question'', q)]) b5
      in JObj b6)"

text \<open>
  \<open>/^\s*Q:\s*(.+)$/m\<close> and its group. After \<open>Q:\<close> the white space is taken greedily
  and the group runs to the end of the line; when the white space reaches the end of
  the string the expression backtracks to the last code unit of it that \<open>.\<close> matches.
\<close>

definition captureQ :: "jsstring \<Rightarrow> jsstring option" where
  "captureQ rest =
     (let ws = takeWhile isWs rest; after = dropWhile isWs rest in
      if after \<noteq> [] then Some (takeWhile (\<lambda>c. \<not> isLineTerminator c) after)
      else (case filter (\<lambda>c. \<not> isLineTerminator c) ws of
              [] \<Rightarrow> None
            | x # xs \<Rightarrow> Some [last (x # xs)]))"

definition matchQAt :: "jsstring \<Rightarrow> jsstring option" where
  "matchQAt s =
     (case dropWhile isWs s of
        a # b # rest \<Rightarrow> if a = 0x51 \<and> b = 0x3A then captureQ rest else None
      | _ \<Rightarrow> None)"

text \<open>The first match: \<open>^\<close> holds at the start and after a line terminator.\<close>

fun matchQFrom :: "bool \<Rightarrow> jsstring \<Rightarrow> jsstring option" where
  "matchQFrom atLineStart [] = None"
| "matchQFrom atLineStart (c # cs) =
     (case (if atLineStart then matchQAt (c # cs) else None) of
        Some g \<Rightarrow> Some g
      | None \<Rightarrow> matchQFrom (isLineTerminator c) cs)"

text \<open>The first loop of \<open>main\<close>: the keys of the blocks stored in the index.\<close>

fun existingKeysOf :: "runtime \<Rightarrow> schema \<Rightarrow> json list \<Rightarrow> error + jsstring set" where
  "existingKeysOf rt sch [] = Inr {}"
| "existingKeysOf rt sch (b # bs) =
     (case getProp b (textKey sch) of
        Inl e \<Rightarrow> Inl e
      | Inr t \<Rightarrow>
          (case existingKeysOf rt sch bs of
             Inl e \<Rightarrow> Inl e
           | Inr keys \<Rightarrow>
               (case matchQFrom True (String rt (orEmpty t)) of
                  None \<Rightarrow> Inr keys
                | Some g \<Rightarrow> Inr (insert (norm_s rt (JStr g)) keys))))"

text \<open>The loop over the records of one file, on \<open>(newBlocks, existingKeys, added)\<close>.\<close>

fun mergeRecords ::
  "runtime \<Rightarrow> schema \<Rightarrow> jsstring \<times> jsstring \<Rightarrow> json list \<Rightarrow> json list \<times> jsstring set \<times> nat \<Rightarrow>
   error + json list \<times> jsstring set \<times> nat" where
  "mergeRecords rt sch topicInfo [] st = Inr st"
| "mergeRecords rt sch topicInfo (qa # qas) (newBlocks, existingKeys, added) =
     (case getProp qa (js ''question'') of
        Inl e \<Rightarrow> Inl e
      | Inr qv \<Rightarrow>
          (let qkey = norm_s rt (orEmpty qv) in
           if qkey = [] then mergeRecords rt sch topicInfo qas (newBlocks, existingKeys, added)
           else if qkey \<in> existingKeys then
             mergeRecords rt sch topicInfo qas (newBlocks, existingKeys, added)
           else
             mergeRecords rt sch topicInfo qas
               (newBlocks @ [qaToBlock rt (\<lambda>k. case getProp qa k of Inr v \<Rightarrow> v | Inl _ \<Rightarrow> None)
                               sch topicInfo (added + 1)],
                insert qkey existingKeys, added + 1)))"

text \<open>The loop over the files, each a path and what \<open>readJson\<close> returned for it.\<close>

fun mergeFiles ::
  "runtime \<Rightarrow> schema \<Rightarrow> (jsstring \<times> json) list \<Rightarrow> json list \<times> jsstring set \<times> nat \<Rightarrow>
   error + json list \<times> jsstring set \<times> nat" where
  "mergeFiles rt sch [] st = Inr st"
| "mergeFiles rt sch ((qp, qaList) # rest) st =
     (case qaList of
        JArr qas \<Rightarrow>
          (case mergeRecords rt sch (topicFromFilename rt qp) qas st of
             Inl e \<Rightarrow> Inl e
           | Inr st1 \<Rightarrow> mergeFiles rt sch rest st1)
      | _ \<Rightarrow> mergeFiles rt sch rest st)"

text \<open>What a run of \<open>main\<close> leaves: the index written, its backup, and the two counts printed.\<close>

record merged =
  written :: json
  backup :: "jsstring \<times> json"
  newBlocks :: "json list"
  added :: nat

definition main :: "runtime \<Rightarrow> jsstring \<Rightarrow> jsstring \<Rightarrow> json \<Rightarrow> (jsstring \<times> json) list \<Rightarrow> error + merged" where
  "main rt mode kbPath k qaFiles =
     (if qaFiles = [] then Inl UsageError
      else
        let blocks = containerBlocks k;
            sch = buildQaBlockSchema blocks
        in case existingKeysOf rt sch blocks of
             Inl e \<Rightarrow> Inl e
           | Inr existingKeys \<Rightarrow>
               (case mergeFiles rt sch qaFiles
                       (if mode = js ''replace'' then [] else blocks, existingKeys, 0) of
                  Inl e \<Rightarrow> Inl e
                | Inr (nb, keys, n) \<Rightarrow>
                    Inr \<lparr>written = setBlocks k nb,
                         backup = (kbPath @ js ''.bak_'' @ stamp rt, k),
                         newBlocks = nb, added = n\<rparr>))"

text \<open>
  The key of a record, as the loop computes it, and the records of all the files that
  hold an array, in the order the loops visit them.
\<close>

definition questionKey :: "runtime \<Rightarrow> json \<Rightarrow> jsstring" where
  "questionKey rt qa = norm_s rt (orEmpty (case getProp qa (js ''question'') of Inr v \<Rightarrow> v | Inl _ \<Rightarrow> None))"

definition inputRecords :: "(jsstring \<times> json) list \<Rightarrow> json list" where
  "inputRecords qaFiles = concat (map (\<lambda>f. case snd f of JArr qas \<Rightarrow> qas | _ \<Rightarrow> []) qaFiles)"

section \<open>Strings without a given pair or triple of neighbours\<close>

text \<open>
  \<open>noPair P s\<close>: no two neighbours of \<open>s\<close> are related by \<open>P\<close>; \<open>noTriple s\<close>: no
  three line feeds in a row. The pairs of the normalizer: a blank before a line feed,
  two blanks, and a carriage return before a line feed.
\<close>

fun noPair :: "('a \<Rightarrow> 'a \<Rightarrow> bool) \<Rightarrow> 'a list \<Rightarrow> bool" where
  "noPair P (a # b # cs) = (\<not> P a b \<and> noPair P (b # cs))"
| "noPair P cs = True"

fun noTriple :: "jsstring \<Rightarrow> bool" where
  "noTriple (a # b # c # cs) = (\<not> (a = LF \<and> b = LF \<and> c = LF) \<and> noTriple (b # c # cs))"
| "noTriple cs = True"

abbreviation (input) BL :: "jschar \<Rightarrow> jschar \<Rightarrow> bool" where "BL \<equiv> (\<lambda>a b. isBlank a \<and> b = LF)"
abbreviation (input) BB :: "jschar \<Rightarrow> jschar \<Rightarrow> bool" where "BB \<equiv> (\<lambda>a b. isBlank a \<and> isBlank b)"
abbreviation (input) CL :: "jschar \<Rightarrow> jschar \<Rightarrow> bool" where "CL \<equiv> (\<lambda>a b. a = CR \<and> b = LF)"

section \<open>Example inputs\<close>

text \<open>
  A documents directory whose only file holds the two characters \<open>hi\<close>, an embedding
  provider that always answers, and an index left by an earlier build.
\<close>

definition shortDoc :: "nat doc_file" where
  "shortDoc = \<lparr>name = js ''a.txt'', full = js ''docs/a.txt'', size_f = 2, mtimeMs = 1, ext = js ''.txt''\<rparr>"

definition otherDoc :: "nat doc_file" where
  "otherDoc = \<lparr>name = js ''b.md'', full = js ''docs/b.md'', size_f = 5, mtimeMs = 7, ext = js ''.md''\<rparr>"




text \<open>
  A runtime that lowers the ASCII capitals and decomposes \<open>U+00E9\<close>, two QA files
  whose records ask \<open>Caf(U+00E9)?\<close>, \<open>Other\<close> and \<open> CAFE?\<close>, and an index holding one QA block.
\<close>

definition exampleRuntime :: runtime where
  "exampleRuntime =
     \<lparr>toLowerCase = map (\<lambda>c. if 0x41 \<le> c \<and> c \<le> 0x5A then c + 0x20 else c),
      normalizeNFD = (\<lambda>s. concat (map (\<lambda>c. if c = 0xE9 then [0x65, 0x0301] else [c]) s)),
      toStr = (\<lambda>v. []),
      basename = (\<lambda>p. p),
      stamp = js ''20260101_000000''\<rparr>"

definition qaRecord :: "jsstring \<Rightarrow> json" where
  "qaRecord q = JObj [(js ''question'', JStr q), (js ''answer'', JStr (js ''yes''))]"



definition exampleBlock :: "jsstring \<Rightarrow> nat \<Rightarrow> json" where
  "exampleBlock q n =
     qaToBlock exampleRuntime (map_of [(js ''question'', JStr q), (js ''answer'', JStr (js ''yes''))])
       (buildQaBlockSchema []) (js ''a'', js ''QA (sin doc)'') n"

definition exampleIndex :: json where
  "exampleIndex = JArr [JObj [(js ''text'', JStr (js ''Q: cafe?'' @ [LF, LF] @ js ''A: no''))]]"

section \<open>Properties of the sizing\<close>

lemma trunc_of_int: "trunc (of_int n) = n"
  by (simp add: trunc_def)

text \<open>
  Claim C4, as the code has it: the chunk size is the quotient of the corpus length by
  the target count, rounded up and clamped to 800..3200; 1400 is returned only when
  the quotient is not a finite number (a target of zero), and an empty corpus gives
  800. The overlap is the product of the chunk size with 0.12 rounded down, not to
  the nearest integer, and clamped to 80..450.
\<close>

theorem sizing_formula:
  "(tg \<noteq> 0 \<longrightarrow>
      chunkSizeOf tc tg = max 800 (min 3200 \<lceil>(of_int tc :: rat) / of_int tg\<rceil>))
   \<and> (tg = 0 \<longrightarrow> chunkSizeOf tc tg = 1400)
   \<and> overlapOf cs = max 80 (min 450 \<lfloor>(of_int cs :: rat) * (12 / 100)\<rfloor>)"
  by (simp add: chunkSizeOf_def overlapOf_def clampInt_def jsCeil_def jsFloor_def jsDiv_def
      trunc_of_int)

theorem sizing_formula_witness:
  "(150::int) \<noteq> 0 \<and> chunkSizeOf 120750 150 = 805 \<and> chunkSizeOf 120001 150 = 801
   \<and> chunkSizeOf 0 150 = 800 \<and> chunkSizeOf 7 0 = 1400 \<and> overlapOf 805 = 96"
proof -
  have a: "\<lceil>120001 / 150 :: rat\<rceil> = 801" by (rule ceiling_unique) simp_all
  have b: "\<lfloor>483 / 5 :: rat\<rfloor> = 96" by (rule floor_unique) simp_all
  show ?thesis
    using sizing_formula [of 150 120750 805] sizing_formula [of 150 120001 805]
      sizing_formula [of 150 0 805] sizing_formula [of 0 7 805]
    by (simp add: a b)
qed

text \<open>
  Claim C4 as stated fails: a corpus of 120750 characters with 150 target chunks has
  chunks of 805 characters, whose overlap is 96 and not the rounded 96.6.
\<close>

theorem overlap_round_counterexample:
  "chunkSizeOf 120750 150 = 805 \<and> overlapOf 805 = 96 \<and> spec_overlapOf 805 = 97
   \<and> overlapOf (chunkSizeOf 120750 150) \<noteq> spec_overlapOf (chunkSizeOf 120750 150)"
  by code_simp

text \<open>
  Claim C10: whatever the corpus length and the target count, the chunk size is within
  800..3200 and the overlap within 80..450, so the chunker is always called with a
  positive overlap below the chunk size. The clamp keeps any number, finite or not,
  within these bounds, the defaults 1400 and 180 included.
\<close>

theorem sizing_bounds:
  "800 \<le> chunkSizeOf tc tg \<and> chunkSizeOf tc tg \<le> 3200
   \<and> 80 \<le> overlapOf cs \<and> overlapOf cs \<le> 450
   \<and> 800 \<le> clampInt v 1400 800 3200 \<and> clampInt v 1400 800 3200 \<le> 3200
   \<and> 80 \<le> clampInt v 180 80 450 \<and> clampInt v 180 80 450 \<le> 450
   \<and> 0 < nat (overlapOf (chunkSizeOf tc tg))
   \<and> nat (overlapOf (chunkSizeOf tc tg)) < nat (chunkSizeOf tc tg)"
proof -
  have cl: "800 \<le> clampInt w 1400 800 3200 \<and> clampInt w 1400 800 3200 \<le> 3200
      \<and> 80 \<le> clampInt w 180 80 450 \<and> clampInt w 180 80 450 \<le> 450" for w
    by (simp add: clampInt_def split: jsnum.split)
  have cs: "800 \<le> chunkSizeOf tc tg \<and> chunkSizeOf tc tg \<le> 3200"
    using cl by (simp add: chunkSizeOf_def)
  have ov: "80 \<le> overlapOf c \<and> overlapOf c \<le> 450" for c
    using cl by (simp add: overlapOf_def)
  from cs ov [of cs] ov [of "chunkSizeOf tc tg"] cl [of v] show ?thesis
    by linarith
qed

section \<open>Properties of the retriever\<close>













section \<open>Properties of the builder\<close>











section \<open>Properties of the chunker\<close>

lemma length_trim: "length (trim s) \<le> length s"
proof -
  have "length (dropWhile isWs (rev (dropWhile isWs s))) \<le> length (rev (dropWhile isWs s))"
    by (rule length_dropWhile_le)
  also have "\<dots> \<le> length s"
    using length_dropWhile_le [of isWs s] by simp
  finally show ?thesis by (simp add: trim_def)
qed

lemma set_push: "c \<in> set (push chs t) \<Longrightarrow> c \<in> set chs \<or> c = trim t"
  by (auto simp: push_def Let_def split: if_splits)

lemma hardSplit_Some:
  assumes "0 < cs"
  shows "\<exists>r. hardSplit cs p i chs = Some r \<and> (\<forall>c\<in>set r. c \<in> set chs \<or> length c \<le> cs)"
proof (induction "length p - i" arbitrary: i chs rule: less_induct)
  case less
  show ?case
  proof (cases "i < length p")
    case False
    then show ?thesis by (subst hardSplit.simps) simp
  next
    case True
    with assms have "length p - (i + cs) < length p - i" by arith
    from less [OF this, of "push chs (take cs (drop i p))"]
    obtain r where r: "hardSplit cs p (i + cs) (push chs (take cs (drop i p))) = Some r"
      and b: "\<forall>c\<in>set r. c \<in> set (push chs (take cs (drop i p))) \<or> length c \<le> cs"
      by blast
    have "length (trim (take cs (drop i p))) \<le> cs"
      using length_trim [of "take cs (drop i p)"] by simp
    with b have "\<forall>c\<in>set r. c \<in> set chs \<or> length c \<le> cs"
      using set_push by blast
    moreover from True r have "hardSplit cs p i chs = Some r"
      by (subst hardSplit.simps) simp
    ultimately show ?thesis by blast
  qed
qed

lemma chunkLoop_bound:
  assumes "0 < cs"
    and "10 * length cur \<le> 18 * cs + 10 * (ov + 2)"
    and "\<forall>c\<in>set chs. 10 * length c \<le> 18 * cs + 10 * (ov + 2)"
  shows "\<exists>chs' cur'. chunkLoop cs ov ps (chs, cur) = Some (chs', cur')
          \<and> 10 * length cur' \<le> 18 * cs + 10 * (ov + 2)
          \<and> (\<forall>c\<in>set chs'. 10 * length c \<le> 18 * cs + 10 * (ov + 2))"
  using assms(2,3)
proof (induction ps arbitrary: chs cur)
  case Nil
  then show ?case by simp
next
  case (Cons p ps)
  let ?B = "18 * cs + 10 * (ov + 2)"
  have pushed: "\<forall>c\<in>set (push chs cur). 10 * length c \<le> ?B"
  proof
    fix c assume "c \<in> set (push chs cur)"
    then have "c \<in> set chs \<or> c = trim cur" by (rule set_push)
    then show "10 * length c \<le> ?B"
      using Cons.prems length_trim [of cur] by auto
  qed
  show ?case
  proof (cases "18 * cs < 10 * length p")
    case True
    let ?chs1 = "if trim cur \<noteq> [] then push chs cur else chs"
    let ?cur1 = "if trim cur \<noteq> [] then [] else cur"
    have c1: "\<forall>c\<in>set ?chs1. 10 * length c \<le> ?B"
      using pushed Cons.prems(2) by simp
    have k1: "10 * length ?cur1 \<le> ?B"
      using Cons.prems(1) by simp
    from hardSplit_Some [OF assms(1), of p 0 ?chs1]
    obtain r where r: "hardSplit cs p 0 ?chs1 = Some r"
      and b: "\<forall>c\<in>set r. c \<in> set ?chs1 \<or> length c \<le> cs" by blast
    have c2: "\<forall>c\<in>set r. 10 * length c \<le> ?B"
    proof
      fix c assume "c \<in> set r"
      with b have "c \<in> set ?chs1 \<or> length c \<le> cs" by blast
      then show "10 * length c \<le> ?B"
      proof
        assume "c \<in> set ?chs1" with c1 show ?thesis by blast
      next
        assume "length c \<le> cs" then show ?thesis by simp
      qed
    qed
    have eq: "chunkLoop cs ov (p # ps) (chs, cur) = chunkLoop cs ov ps (r, ?cur1)"
      using True r by (simp split: if_splits)
    from Cons.IH [OF k1 c2] show ?thesis unfolding eq .
  next
    case nb: False
    show ?thesis
    proof (cases "length cur + length p + 2 \<le> cs")
      case True
      let ?cur' = "cur @ (if cur \<noteq> [] then [LF, LF] else []) @ p"
      have "10 * length ?cur' \<le> ?B" using True by simp
      from Cons.IH [OF this Cons.prems(2)] nb True show ?thesis by simp
    next
      case False
      let ?tail = "drop (length cur - ov) cur"
      let ?cur' = "(if ?tail \<noteq> [] then ?tail @ [LF, LF] else []) @ p"
      have "length ?tail \<le> ov" by simp
      then have "10 * length ?cur' \<le> ?B" using nb by (simp del: length_drop)
      from Cons.IH [OF this pushed] nb False show ?thesis by (simp add: Let_def)
    qed
  qed
qed

text \<open>
  Claim C2, as the code has it: with a positive chunk size the chunker returns, and no
  chunk, hard-split slice or not, is longer than 1.8 times the chunk size plus the
  overlap plus the two characters of the separator. A buffer started after a flush
  holds the overlap tail, the separator and the next paragraph.
\<close>

theorem chunk_size_bound:
  assumes "0 < cs"
  shows "\<exists>chs. chunkByParagraphs t cs ov = Some chs
          \<and> (\<forall>c\<in>set chs. 10 * length c \<le> 18 * cs + 10 * (ov + 2))"
proof -
  from chunkLoop_bound [OF assms, of "[]" ov "[]" "paragraphs t"]
  obtain chs' cur' where r: "chunkLoop cs ov (paragraphs t) ([], []) = Some (chs', cur')"
    and k: "10 * length cur' \<le> 18 * cs + 10 * (ov + 2)"
    and c: "\<forall>c\<in>set chs'. 10 * length c \<le> 18 * cs + 10 * (ov + 2)"
    by auto
  have "\<forall>c\<in>set (push chs' cur'). 10 * length c \<le> 18 * cs + 10 * (ov + 2)"
  proof
    fix x assume "x \<in> set (push chs' cur')"
    then have "x \<in> set chs' \<or> x = trim cur'" by (rule set_push)
    then show "10 * length x \<le> 18 * cs + 10 * (ov + 2)"
      using c k length_trim [of cur'] by auto
  qed
  moreover have "chunkByParagraphs t cs ov = Some (push chs' cur')"
    by (simp add: chunkByParagraphs_def r)
  ultimately show ?thesis by blast
qed


lemma paragraphs_example: "paragraphs [0x61, LF, LF, 0x62, 0x62, 0x62] = [[0x61], [0x62, 0x62, 0x62]]"
  by (simp add: paragraphs_def normalizeWhitespace_def matchCRLF_def matchTrailing_def
      matchNewlines_def matchBlanks_def trim_def isWs_def isBlank_def split_def
      matchParagraphBreak_def)

theorem chunk_size_bound_witness:
  "(0::nat) < 2
   \<and> chunkByParagraphs [0x61, LF, LF, 0x62, 0x62, 0x62] 2 1
       = Some [[0x61], [0x61, LF, LF, 0x62, 0x62, 0x62]]
   \<and> 10 * length [0x61 :: jschar] \<le> 18 * 2 + 10 * (1 + 2)
   \<and> 10 * length [0x61 :: jschar, LF, LF, 0x62, 0x62, 0x62] \<le> 18 * 2 + 10 * (1 + 2)"
proof -
  have e: "chunkByParagraphs [0x61, LF, LF, 0x62, 0x62, 0x62] 2 1
      = Some [[0x61], [0x61, LF, LF, 0x62, 0x62, 0x62]]"
    by (simp add: chunkByParagraphs_def paragraphs_example push_def trim_def isWs_def)
  from chunk_size_bound [of 2 "[0x61, LF, LF, 0x62, 0x62, 0x62]" 1] e
  show ?thesis by auto
qed

text \<open>
  Claim C2 as stated fails: with chunk size 2 and overlap 1 the text of the paragraphs
  \<open>a\<close> and \<open>bbb\<close> has no paragraph above 1.8 times the chunk size, so nothing is
  hard-split, and its second chunk has 6 characters.
\<close>

theorem chunk_over_bound_counterexample:
  "(0::nat) < 1 \<and> (1::nat) < 2
   \<and> paragraphs [0x61, LF, LF, 0x62, 0x62, 0x62] = [[0x61], [0x62, 0x62, 0x62]]
   \<and> \<not> 18 * 2 < 10 * length [0x61 :: jschar]
   \<and> \<not> 18 * 2 < 10 * length [0x62 :: jschar, 0x62, 0x62]
   \<and> chunkByParagraphs [0x61, LF, LF, 0x62, 0x62, 0x62] 2 1
       = Some [[0x61], [0x61, LF, LF, 0x62, 0x62, 0x62]]
   \<and> 18 * 2 < 10 * length [0x61 :: jschar, LF, LF, 0x62, 0x62, 0x62]"
  by (simp add: chunkByParagraphs_def paragraphs_example push_def trim_def isWs_def)


section \<open>Properties of the QA merger\<close>

lemma mergeRecords_spec:
  assumes "mergeRecords rt sch ti qas (nb, E, n) = Inr (nb', E', n')"
  shows "E' = E \<union> (set (map (questionKey rt) qas) - {[]})
       \<and> n' = n + card (set (map (questionKey rt) qas) - {[]} - E)
       \<and> length nb' = length nb + card (set (map (questionKey rt) qas) - {[]} - E)"
  using assms
proof (induction qas arbitrary: nb E n)
  case Nil
  then show ?case by simp
next
  case (Cons qa qas)
  let ?S = "set (map (questionKey rt) qas)"
  from Cons.prems obtain qv where g: "getProp qa (js ''question'') = Inr qv"
    by (cases "getProp qa (js ''question'')") auto
  then have k: "questionKey rt qa = norm_s rt (orEmpty qv)" by (simp add: questionKey_def)
  let ?k = "questionKey rt qa"
  show ?case
  proof (cases "?k = [] \<or> ?k \<in> E")
    case True
    with Cons.prems g k have "mergeRecords rt sch ti qas (nb, E, n) = Inr (nb', E', n')"
      by (auto simp: Let_def split: if_splits)
    from Cons.IH [OF this] have ih: "E' = E \<union> (?S - {[]})"
      "n' = n + card (?S - {[]} - E)" "length nb' = length nb + card (?S - {[]} - E)" by auto
    from True have "insert ?k ?S - {[]} - E = ?S - {[]} - E" by auto
    moreover from True have "E \<union> (insert ?k ?S - {[]}) = E \<union> (?S - {[]})" by auto
    ultimately show ?thesis using ih by simp
  next
    case False
    let ?b = "qaToBlock rt (\<lambda>k. case getProp qa k of Inr v \<Rightarrow> v | Inl _ \<Rightarrow> None) sch ti (n + 1)"
    from False Cons.prems g k
    have "mergeRecords rt sch ti qas (nb @ [?b], insert ?k E, n + 1) = Inr (nb', E', n')"
      by (auto simp: Let_def split: if_splits)
    from Cons.IH [OF this] have ih: "E' = insert ?k E \<union> (?S - {[]})"
      "n' = n + 1 + card (?S - {[]} - insert ?k E)"
      "length nb' = length (nb @ [?b]) + card (?S - {[]} - insert ?k E)" by auto
    from False have eq: "insert ?k ?S - {[]} - E = insert ?k (?S - {[]} - insert ?k E)" by auto
    have "card (insert ?k ?S - {[]} - E) = Suc (card (?S - {[]} - insert ?k E))"
      unfolding eq by (rule card_insert_disjoint) auto
    moreover from False have "E \<union> (insert ?k ?S - {[]}) = insert ?k E \<union> (?S - {[]})" by auto
    ultimately show ?thesis using ih by simp
  qed
qed

lemma mergeFiles_spec:
  assumes "mergeFiles rt sch fs (nb, E, n) = Inr (nb', E', n')"
  shows "E' = E \<union> (set (map (questionKey rt) (inputRecords fs)) - {[]})
       \<and> n' = n + card (set (map (questionKey rt) (inputRecords fs)) - {[]} - E)
       \<and> length nb' = length nb + card (set (map (questionKey rt) (inputRecords fs)) - {[]} - E)"
  using assms
proof (induction fs arbitrary: nb E n)
  case Nil
  then show ?case by (simp add: inputRecords_def)
next
  case (Cons f fs)
  obtain qp qaList where f: "f = (qp, qaList)" by (cases f)
  show ?case
  proof (cases "\<exists>qas. qaList = JArr qas")
    case False
    then have nr: "inputRecords (f # fs) = inputRecords fs"
      by (cases qaList) (auto simp: inputRecords_def f)
    from False Cons.prems have "mergeFiles rt sch fs (nb, E, n) = Inr (nb', E', n')"
      by (cases qaList) (auto simp: f)
    from Cons.IH [OF this] show ?thesis by (simp only: nr)
  next
    case True
    then obtain qas where q: "qaList = JArr qas" by blast
    then have nr: "inputRecords (f # fs) = qas @ inputRecords fs"
      by (simp add: inputRecords_def f)
    from Cons.prems q obtain nb1 E1 n1 where
      m1: "mergeRecords rt sch (topicFromFilename rt qp) qas (nb, E, n) = Inr (nb1, E1, n1)"
      and m2: "mergeFiles rt sch fs (nb1, E1, n1) = Inr (nb', E', n')"
      by (auto simp: f split: sum.splits)
    let ?A = "set (map (questionKey rt) qas) - {[]}"
    let ?B = "set (map (questionKey rt) (inputRecords fs)) - {[]}"
    from mergeRecords_spec [OF m1] have a: "E1 = E \<union> ?A" "n1 = n + card (?A - E)"
      "length nb1 = length nb + card (?A - E)" by auto
    from Cons.IH [OF m2] have b: "E' = E1 \<union> ?B" "n' = n1 + card (?B - E1)"
      "length nb' = length nb1 + card (?B - E1)" by auto
    have u: "set (map (questionKey rt) (qas @ inputRecords fs)) - {[]} = ?A \<union> ?B" by auto
    have d: "(?A \<union> ?B) - E = (?A - E) \<union> (?B - (E \<union> ?A))" by auto
    have "card ((?A - E) \<union> (?B - (E \<union> ?A))) = card (?A - E) + card (?B - (E \<union> ?A))"
      by (rule card_Un_disjoint) auto
    with a b show ?thesis unfolding nr u d by auto
  qed
qed


lemma mergeRecords_blocks:
  "mergeRecords rt sch ti qas (nb, E, n) =
     (case mergeRecords rt sch ti qas ([], E, n) of
        Inl e \<Rightarrow> Inl e
      | Inr (nb', E', n') \<Rightarrow> Inr (nb @ nb', E', n'))"
proof (induction qas arbitrary: nb E n)
  case Nil
  then show ?case by simp
next
  case (Cons qa qas)
  show ?case
  proof (cases "getProp qa (js ''question'')")
    case (Inl e)
    then show ?thesis by simp
  next
    case (Inr qv)
    let ?k = "norm_s rt (orEmpty qv)"
    show ?thesis
    proof (cases "?k = [] \<or> ?k \<in> E")
      case True
      then have "mergeRecords rt sch ti (qa # qas) (nb, E, n) = mergeRecords rt sch ti qas (nb, E, n)"
        and "mergeRecords rt sch ti (qa # qas) ([], E, n) = mergeRecords rt sch ti qas ([], E, n)"
        using Inr by (auto simp: Let_def)
      with Cons.IH [of nb E n] show ?thesis by (simp only:)
    next
      case False
      let ?b = "qaToBlock rt (\<lambda>k. case getProp qa k of Inr v \<Rightarrow> v | Inl _ \<Rightarrow> None) sch ti (n + 1)"
      from False Inr have l: "mergeRecords rt sch ti (qa # qas) (nb, E, n)
          = mergeRecords rt sch ti qas (nb @ [?b], insert ?k E, n + 1)"
        and r: "mergeRecords rt sch ti (qa # qas) ([], E, n)
          = mergeRecords rt sch ti qas ([?b], insert ?k E, n + 1)"
        by (auto simp: Let_def)
      note A = Cons.IH [of "nb @ [?b]" "insert ?k E" "n + 1"]
      note B = Cons.IH [of "[?b]" "insert ?k E" "n + 1"]
      show ?thesis
        unfolding l r by (simp only: A B) (simp split: sum.splits prod.splits)
    qed
  qed
qed

lemma mergeFiles_blocks:
  "mergeFiles rt sch fs (nb, E, n) =
     (case mergeFiles rt sch fs ([], E, n) of
        Inl e \<Rightarrow> Inl e
      | Inr (nb', E', n') \<Rightarrow> Inr (nb @ nb', E', n'))"
proof (induction fs arbitrary: nb E n)
  case Nil
  then show ?case by simp
next
  case (Cons f fs)
  obtain qp qaList where f: "f = (qp, qaList)" by (cases f)
  show ?case
  proof (cases "\<exists>qas. qaList = JArr qas")
    case False
    then have "mergeFiles rt sch (f # fs) (nb, E, n) = mergeFiles rt sch fs (nb, E, n)"
      and "mergeFiles rt sch (f # fs) ([], E, n) = mergeFiles rt sch fs ([], E, n)"
      by (cases qaList; simp add: f)+
    with Cons.IH [of nb E n] show ?thesis by (simp only:)
  next
    case True
    then obtain qas where q: "qaList = JArr qas" by blast
    let ?ti = "topicFromFilename rt qp"
    show ?thesis
    proof (cases "mergeRecords rt sch ?ti qas ([], E, n)")
      case (Inl e)
      then have "mergeRecords rt sch ?ti qas (nb, E, n) = Inl e"
        by (subst mergeRecords_blocks) simp
      with Inl show ?thesis by (simp add: f q)
    next
      case (Inr st1)
      obtain nb1 E1 n1 where st1: "st1 = (nb1, E1, n1)" by (cases st1)
      from Inr st1 have a: "mergeRecords rt sch ?ti qas (nb, E, n) = Inr (nb @ nb1, E1, n1)"
        by (subst mergeRecords_blocks) simp
      have l: "mergeFiles rt sch (f # fs) (nb, E, n) = mergeFiles rt sch fs (nb @ nb1, E1, n1)"
        by (simp add: f q a)
      have r: "mergeFiles rt sch (f # fs) ([], E, n) = mergeFiles rt sch fs (nb1, E1, n1)"
        using Inr st1 by (simp add: f q)
      note A = Cons.IH [of "nb @ nb1" E1 n1]
      note B = Cons.IH [of nb1 E1 n1]
      show ?thesis
        unfolding l r by (simp only: A B) (simp split: sum.splits prod.splits)
    qed
  qed
qed





text \<open>
  Claim C9: in replace mode the keys looked up are those of the blocks stored in the
  index, as in any other mode, and the block list written holds only the blocks added:
  it is the list of the other modes without the stored blocks in front.
\<close>

theorem replace_mode:
  assumes "main rt (js ''replace'') kbPath k qaFiles = Inr r"
    and "mode \<noteq> js ''replace''"
  shows "\<exists>E r'. existingKeysOf rt (buildQaBlockSchema (containerBlocks k)) (containerBlocks k) = Inr E
      \<and> added r = card (set (map (questionKey rt) (inputRecords qaFiles)) - {[]} - E)
      \<and> length (newBlocks r) = added r
      \<and> written r = setBlocks k (newBlocks r)
      \<and> main rt mode kbPath k qaFiles = Inr r'
      \<and> newBlocks r' = containerBlocks k @ newBlocks r
      \<and> added r' = added r"
proof -
  let ?blocks = "containerBlocks k"
  let ?sch = "buildQaBlockSchema ?blocks"
  from assms(1) obtain E where E: "existingKeysOf rt ?sch ?blocks = Inr E"
    by (cases "existingKeysOf rt ?sch ?blocks") (auto simp: main_def Let_def split: if_splits)
  from assms(1) E obtain nb keys n where
    m: "mergeFiles rt ?sch qaFiles ([], E, 0) = Inr (nb, keys, n)"
    and r: "r = \<lparr>written = setBlocks k nb, backup = (kbPath @ js ''.bak_'' @ stamp rt, k),
                 newBlocks = nb, added = n\<rparr>"
    and ne: "qaFiles \<noteq> []"
    by (auto simp: main_def Let_def split: if_splits sum.splits)
  have m': "mergeFiles rt ?sch qaFiles (?blocks, E, 0) = Inr (?blocks @ nb, keys, n)"
    by (subst mergeFiles_blocks) (simp add: m)
  let ?r' = "\<lparr>written = setBlocks k (?blocks @ nb), backup = (kbPath @ js ''.bak_'' @ stamp rt, k),
              newBlocks = ?blocks @ nb, added = n\<rparr>"
  have a: "main rt mode kbPath k qaFiles = Inr ?r'"
    using assms(2) ne E m' by (simp add: main_def Let_def)
  from mergeFiles_spec [OF m] r
  have b: "added r = card (set (map (questionKey rt) (inputRecords qaFiles)) - {[]} - E)"
    and c: "length (newBlocks r) = added r" by auto
  from E a b c r show ?thesis by auto
qed

theorem replace_mode_witness:
  "main exampleRuntime (js ''replace'') (js ''kb.json'') exampleIndex
       [(js ''a.json'', JArr [qaRecord (js ''Caf'' @ [0xE9, 0x3F]), qaRecord (js ''Other'')])]
     = Inr \<lparr>written = JArr [exampleBlock (js ''Other'') 1],
            backup = (js ''kb.json.bak_20260101_000000'', exampleIndex),
            newBlocks = [exampleBlock (js ''Other'') 1],
            added = 1\<rparr>
   \<and> js ''append'' \<noteq> js ''replace''
   \<and> existingKeysOf exampleRuntime (buildQaBlockSchema (containerBlocks exampleIndex))
        (containerBlocks exampleIndex) = Inr {js ''cafe?''}
   \<and> main exampleRuntime (js ''append'') (js ''kb.json'') exampleIndex
         [(js ''a.json'', JArr [qaRecord (js ''Caf'' @ [0xE9, 0x3F]), qaRecord (js ''Other'')])]
       = Inr \<lparr>written = JArr (containerBlocks exampleIndex @ [exampleBlock (js ''Other'') 1]),
              backup = (js ''kb.json.bak_20260101_000000'', exampleIndex),
              newBlocks = containerBlocks exampleIndex @ [exampleBlock (js ''Other'') 1],
              added = 1\<rparr>"
  (is "?run = Inr ?r \<and> ?ne \<and> ?keys \<and> ?app = Inr ?r'")
proof -
  have e: "?run = Inr ?r" by code_simp
  have ne: ?ne by (simp add: js_def)
  have k: ?keys by code_simp
  from replace_mode [OF e ne] obtain r' where a: "?app = Inr r'"
    and n: "newBlocks r' = containerBlocks exampleIndex @ newBlocks ?r" and d: "added r' = added ?r"
    by blast
  have w: "\<not> isl ?app \<and> written (projr ?app) = JArr (newBlocks (projr ?app))
      \<and> backup (projr ?app) = (js ''kb.json.bak_20260101_000000'', exampleIndex)"
    by code_simp
  from a n d w have "r' = ?r'" by (cases r') simp
  with a e ne k show ?thesis by simp
qed


section \<open>Properties of the normalizer\<close>

lemma noPair_Cons: "noPair P (a # xs) \<longleftrightarrow> (xs = [] \<or> \<not> P a (hd xs)) \<and> noPair P xs"
  by (cases xs) auto

lemma noPair_drop: "noPair P xs \<Longrightarrow> noPair P (drop n xs)"
proof (induction n arbitrary: xs)
  case 0 then show ?case by simp
next
  case (Suc n)
  then show ?case by (cases xs) (auto simp: noPair_Cons)
qed

lemma noPair_dropWhile: "noPair P xs \<Longrightarrow> noPair P (dropWhile Q xs)"
  by (induction xs) (auto simp: noPair_Cons)

lemma hd_take_nonempty: "take m xs \<noteq> [] \<Longrightarrow> hd (take m xs) = hd xs"
  by (cases m; cases xs) auto

lemma noPair_take: "noPair P xs \<Longrightarrow> noPair P (take n xs)"
proof (induction xs arbitrary: n)
  case Nil then show ?case by simp
next
  case (Cons a xs)
  show ?case
  proof (cases n)
    case 0 then show ?thesis by simp
  next
    case (Suc m)
    from Cons.prems have "noPair P xs" by (simp add: noPair_Cons)
    then have "noPair P (take m xs)" by (rule Cons.IH)
    moreover have "take m xs = [] \<or> \<not> P a (hd (take m xs))"
      using Cons.prems hd_take_nonempty [of m xs] by (auto simp: noPair_Cons)
    ultimately show ?thesis using Suc by (simp add: noPair_Cons)
  qed
qed

lemma noTriple_Cons:
  "noTriple (a # xs) \<longleftrightarrow> \<not> (a = LF \<and> take 2 xs = [LF, LF]) \<and> noTriple xs"
proof (cases xs)
  case Nil then show ?thesis by simp
next
  case (Cons b ys)
  then show ?thesis by (cases ys) auto
qed

lemma noTriple_drop: "noTriple xs \<Longrightarrow> noTriple (drop n xs)"
proof (induction n arbitrary: xs)
  case 0 then show ?case by simp
next
  case (Suc n)
  then show ?case by (cases xs) (auto simp: noTriple_Cons)
qed

lemma noTriple_dropWhile: "noTriple xs \<Longrightarrow> noTriple (dropWhile Q xs)"
  by (induction xs) (auto simp: noTriple_Cons)

lemma noTriple_take: "noTriple xs \<Longrightarrow> noTriple (take n xs)"
proof (induction n arbitrary: xs)
  case 0 then show ?case by simp
next
  case (Suc n)
  show ?case
  proof (cases xs)
    case Nil then show ?thesis by simp
  next
    case (Cons a ys)
    from Suc.prems Cons have t: "noTriple ys" and h: "\<not> (a = LF \<and> take 2 ys = [LF, LF])"
      by (auto simp: noTriple_Cons)
    have "take 2 (take n ys) = [LF, LF] \<Longrightarrow> take 2 ys = [LF, LF]"
    proof -
      assume eq: "take 2 (take n ys) = [LF, LF]"
      then have "length (take (min 2 n) ys) = 2" by (simp add: min.commute)
      then have "min 2 n = 2" by (simp add: min_def split: if_splits)
      with eq show ?thesis by (simp add: min.commute)
    qed
    with Suc.IH [OF t] h Cons show ?thesis by (auto simp: noTriple_Cons)
  qed
qed

text \<open>
  One step of each replacement, with the matcher spelled out on the first code unit.
\<close>

lemma drop_length_takeWhile: "drop (length (takeWhile Q xs)) xs = dropWhile Q xs"
  by (induction xs) auto

lemma step2_unfold:
  "replaceAll matchTrailing r (c # cs) =
     (if isBlank c \<and> take 1 (dropWhile isBlank cs) = [LF]
      then r @ replaceAll matchTrailing r (tl (dropWhile isBlank cs))
      else c # replaceAll matchTrailing r cs)"
proof (cases "isBlank c")
  case False
  then show ?thesis by (simp add: matchTrailing_def)
next
  case True
  have d: "drop (length (takeWhile isBlank cs)) cs = dropWhile isBlank cs"
    by (rule drop_length_takeWhile)
  have e: "drop (Suc (length (takeWhile isBlank cs))) cs = tl (dropWhile isBlank cs)"
    by (metis d drop_Suc tl_drop)
  have m: "matchTrailing (c # cs) =
      (if take 1 (dropWhile isBlank cs) = [LF] then Some (length (takeWhile isBlank cs) + 2) else None)"
    using True by (simp add: matchTrailing_def d)
  show ?thesis using True by (simp add: m e)
qed

lemma takeWhile_ge2: "2 \<le> length (takeWhile (\<lambda>x. x = a) cs) \<longleftrightarrow> take 2 cs = [a, a]"
proof (cases cs)
  case Nil then show ?thesis by simp
next
  case (Cons b ds)
  then show ?thesis by (cases ds) auto
qed

lemma takeWhile_ge1: "Suc 0 \<le> length (takeWhile Q cs) \<longleftrightarrow> cs \<noteq> [] \<and> Q (hd cs)"
  by (cases cs) auto

lemma step3_unfold:
  "replaceAll matchNewlines r (c # cs) =
     (if c = LF \<and> take 2 cs = [LF, LF]
      then r @ replaceAll matchNewlines r (dropWhile (\<lambda>x. x = LF) cs)
      else c # replaceAll matchNewlines r cs)"
proof (cases "c = LF")
  case False
  then show ?thesis by (simp add: matchNewlines_def)
next
  case True
  have d: "drop (length (takeWhile (\<lambda>x. x = LF) cs)) cs = dropWhile (\<lambda>x. x = LF) cs"
    by (rule drop_length_takeWhile)
  show ?thesis using True by (simp add: matchNewlines_def d takeWhile_ge2)
qed

lemma step4_unfold:
  "replaceAll matchBlanks r (c # cs) =
     (if isBlank c \<and> cs \<noteq> [] \<and> isBlank (hd cs)
      then r @ replaceAll matchBlanks r (dropWhile isBlank cs)
      else c # replaceAll matchBlanks r cs)"
proof (cases "isBlank c")
  case False
  then show ?thesis by (simp add: matchBlanks_def)
next
  case True
  have d: "drop (length (takeWhile isBlank cs)) cs = dropWhile isBlank cs"
    by (rule drop_length_takeWhile)
  show ?thesis using True by (simp add: matchBlanks_def d takeWhile_ge1)
qed

declare replaceAll.simps(2) [simp del]

lemma LF_not_blank [simp]: "\<not> isBlank LF"
  by (simp add: isBlank_def)

lemma SP_blank [simp]: "isBlank SP"
  by (simp add: isBlank_def)

lemma hd_dropWhile_not: "dropWhile Q cs \<noteq> [] \<Longrightarrow> \<not> Q (hd (dropWhile Q cs))"
  by (rule hd_dropWhile)

subsection \<open>Blanks before a line feed\<close>

lemma noTrailing_blank_run:
  "noPair BL (c # cs) \<Longrightarrow> isBlank c \<Longrightarrow> take 1 (dropWhile isBlank cs) \<noteq> [LF]"
proof (induction cs arbitrary: c)
  case Nil then show ?case by simp
next
  case (Cons d ds)
  show ?case
  proof (cases "isBlank d")
    case True
    from Cons.prems have "noPair BL (d # ds)" by simp
    from Cons.IH [OF this True] True show ?thesis by simp
  next
    case False
    with Cons.prems show ?thesis by simp
  qed
qed

lemma step2_id: "noPair BL s \<Longrightarrow> replaceAll matchTrailing r s = s"
proof (induction s)
  case Nil then show ?case by simp
next
  case (Cons c cs)
  from Cons.prems have "noPair BL cs" by (simp add: noPair_Cons)
  with Cons.IH have "replaceAll matchTrailing r cs = cs" by simp
  moreover have "\<not> (isBlank c \<and> take 1 (dropWhile isBlank cs) = [LF])"
    using noTrailing_blank_run [OF Cons.prems] by blast
  ultimately show ?case by (simp only: step2_unfold if_False)
qed

lemma step2_hd: "replaceAll matchTrailing [LF] s = LF # t \<Longrightarrow> take 1 (dropWhile isBlank s) = [LF]"
proof (cases s)
  case Nil
  then show "replaceAll matchTrailing [LF] s = LF # t \<Longrightarrow> ?thesis" by simp
next
  case (Cons c cs)
  assume a: "replaceAll matchTrailing [LF] s = LF # t"
  show ?thesis
  proof (cases "isBlank c \<and> take 1 (dropWhile isBlank cs) = [LF]")
    case True
    then show ?thesis by (simp add: Cons)
  next
    case False
    with a Cons have "c = LF" by (auto simp: step2_unfold split: if_splits)
    then show ?thesis by (simp add: Cons)
  qed
qed

lemma step2_nf: "noPair BL (replaceAll matchTrailing [LF] s)"
proof (induction s rule: length_induct)
  case (1 s)
  show ?case
  proof (cases s)
    case Nil then show ?thesis by simp
  next
    case (Cons c cs)
    show ?thesis
    proof (cases "isBlank c \<and> take 1 (dropWhile isBlank cs) = [LF]")
      case True
      have "length (tl (dropWhile isBlank cs)) < length s"
        using length_dropWhile_le [of isBlank cs] by (simp add: Cons)
      with 1 have "noPair BL (replaceAll matchTrailing [LF] (tl (dropWhile isBlank cs)))" by blast
      with True show ?thesis by (simp add: Cons step2_unfold noPair_Cons)
    next
      case False
      have "length cs < length s" by (simp add: Cons)
      with 1 have ih: "noPair BL (replaceAll matchTrailing [LF] cs)" by blast
      have "replaceAll matchTrailing [LF] cs = [] \<or> \<not> BL c (hd (replaceAll matchTrailing [LF] cs))"
      proof (rule ccontr)
        assume "\<not> ?thesis"
        then have ne: "replaceAll matchTrailing [LF] cs \<noteq> []" and b: "isBlank c"
          and h: "hd (replaceAll matchTrailing [LF] cs) = LF" by auto
        from ne h have "replaceAll matchTrailing [LF] cs = LF # tl (replaceAll matchTrailing [LF] cs)"
          by (metis list.collapse)
        from step2_hd [OF this] b False show False by blast
      qed
      with ih False show ?thesis by (simp only: Cons step2_unfold if_False noPair_Cons)
    qed
  qed
qed

subsection \<open>Runs of line feeds\<close>

lemma step3_id: "noTriple s \<Longrightarrow> replaceAll matchNewlines r s = s"
proof (induction s)
  case Nil then show ?case by simp
next
  case (Cons c cs)
  from Cons.prems have "noTriple cs" by (simp add: noTriple_Cons)
  with Cons.IH have "replaceAll matchNewlines r cs = cs" by simp
  moreover have "\<not> (c = LF \<and> take 2 cs = [LF, LF])"
    using Cons.prems by (auto simp: noTriple_Cons)
  ultimately show ?case by (simp only: step3_unfold if_False)
qed

lemma step3_Nil: "replaceAll matchNewlines [LF, LF] s = [] \<longleftrightarrow> s = []"
  by (cases s) (auto simp: step3_unfold)

lemma step3_hd: "s \<noteq> [] \<Longrightarrow> hd (replaceAll matchNewlines [LF, LF] s) = hd s"
  by (cases s) (auto simp: step3_unfold)

lemma step3_take2:
  assumes "take 2 (replaceAll matchNewlines [LF, LF] s) = [LF, LF]"
  shows "take 2 s = [LF, LF]"
proof (cases s)
  case Nil with assms show ?thesis by simp
next
  case (Cons c cs)
  show ?thesis
  proof (cases "c = LF \<and> take 2 cs = [LF, LF]")
    case True
    then show ?thesis by (cases cs) (auto simp: Cons)
  next
    case False
    with assms Cons have c: "c = LF" and t: "take 1 (replaceAll matchNewlines [LF, LF] cs) = [LF]"
      by (auto simp: step3_unfold)
    from t have ne: "replaceAll matchNewlines [LF, LF] cs \<noteq> []" by auto
    then have "cs \<noteq> []" by (simp add: step3_Nil)
    moreover from t ne have "hd (replaceAll matchNewlines [LF, LF] cs) = LF"
      by (cases "replaceAll matchNewlines [LF, LF] cs") auto
    ultimately have "hd cs = LF" "cs \<noteq> []" by (simp_all add: step3_hd)
    with c show ?thesis by (cases cs) (auto simp: Cons)
  qed
qed

lemma take1_hd: "take 1 xs = [a] \<longleftrightarrow> xs \<noteq> [] \<and> hd xs = a"
  by (cases xs) auto

lemma take2_hd: "take 2 xs = [a, b] \<Longrightarrow> xs \<noteq> [] \<and> hd xs = a"
  by (cases xs) auto

lemma step3_nf: "noTriple (replaceAll matchNewlines [LF, LF] s)"
proof (induction s rule: length_induct)
  case (1 s)
  show ?case
  proof (cases s)
    case Nil then show ?thesis by simp
  next
    case (Cons c cs)
    show ?thesis
    proof (cases "c = LF \<and> take 2 cs = [LF, LF]")
      case True
      let ?rest = "dropWhile (\<lambda>x. x = LF) cs"
      let ?g = "replaceAll matchNewlines [LF, LF] ?rest"
      have "length ?rest < length s"
        using length_dropWhile_le [of "\<lambda>x. x = LF" cs] by (simp add: Cons)
      with 1 have ih: "noTriple ?g" by blast
      have h: "?g = [] \<or> hd ?g \<noteq> LF"
      proof (cases "?rest = []")
        case r: True
        have "?g = []" by (simp only: r replaceAll.simps(1))
        then show ?thesis by blast
      next
        case False
        then have "hd ?rest \<noteq> LF" using hd_dropWhile [of "\<lambda>x. x = LF" cs] by blast
        with False show ?thesis by (simp add: step3_hd)
      qed
      then have a: "take 2 ?g \<noteq> [LF, LF]" using take2_hd [of ?g LF LF] by blast
      from h have b: "take 2 (LF # ?g) \<noteq> [LF, LF]" by (cases ?g) auto
      have "noTriple (LF # LF # ?g)"
        using ih a b by (simp only: noTriple_Cons) blast
      with True show ?thesis by (simp add: Cons step3_unfold)
    next
      case False
      have "length cs < length s" by (simp add: Cons)
      with 1 have ih: "noTriple (replaceAll matchNewlines [LF, LF] cs)" by blast
      have "\<not> (c = LF \<and> take 2 (replaceAll matchNewlines [LF, LF] cs) = [LF, LF])"
      proof
        assume a: "c = LF \<and> take 2 (replaceAll matchNewlines [LF, LF] cs) = [LF, LF]"
        then have "take 2 cs = [LF, LF]" using step3_take2 by blast
        with a False show False by blast
      qed
      with ih False show ?thesis by (simp only: Cons step3_unfold if_False noTriple_Cons) blast
    qed
  qed
qed

lemma step3_pres: "noPair BL s \<Longrightarrow> noPair BL (replaceAll matchNewlines [LF, LF] s)"
proof (induction s rule: length_induct)
  case (1 s)
  show ?case
  proof (cases s)
    case Nil then show ?thesis by simp
  next
    case (Cons c cs)
    from "1.prems" Cons have cs: "noPair BL cs" and hd: "cs = [] \<or> \<not> BL c (hd cs)"
      by (auto simp: noPair_Cons)
    show ?thesis
    proof (cases "c = LF \<and> take 2 cs = [LF, LF]")
      case True
      let ?rest = "dropWhile (\<lambda>x. x = LF) cs"
      have "length ?rest < length s"
        using length_dropWhile_le [of "\<lambda>x. x = LF" cs] by (simp add: Cons)
      moreover have "noPair BL ?rest" using cs by (rule noPair_dropWhile)
      ultimately have "noPair BL (replaceAll matchNewlines [LF, LF] ?rest)" using 1 by blast
      with True show ?thesis by (simp add: Cons step3_unfold noPair_Cons)
    next
      case False
      have "length cs < length s" by (simp add: Cons)
      with 1 cs have ih: "noPair BL (replaceAll matchNewlines [LF, LF] cs)" by blast
      have "replaceAll matchNewlines [LF, LF] cs = [] \<or> \<not> BL c (hd (replaceAll matchNewlines [LF, LF] cs))"
        using hd by (cases "cs = []") (auto simp: step3_hd)
      with ih False show ?thesis by (simp only: Cons step3_unfold if_False noPair_Cons)
    qed
  qed
qed

subsection \<open>Runs of blanks\<close>

lemma step4_id: "noPair BB s \<Longrightarrow> replaceAll matchBlanks r s = s"
proof (induction s)
  case Nil then show ?case by simp
next
  case (Cons c cs)
  from Cons.prems have "noPair BB cs" by (simp add: noPair_Cons)
  with Cons.IH have "replaceAll matchBlanks r cs = cs" by simp
  moreover have "\<not> (isBlank c \<and> cs \<noteq> [] \<and> isBlank (hd cs))"
    using Cons.prems by (auto simp: noPair_Cons)
  ultimately show ?case by (simp only: step4_unfold if_False)
qed

lemma step4_Nil: "replaceAll matchBlanks [SP] s = [] \<longleftrightarrow> s = []"
  by (cases s) (auto simp: step4_unfold)

lemma step4_hd_blank: "s \<noteq> [] \<Longrightarrow> isBlank (hd (replaceAll matchBlanks [SP] s)) = isBlank (hd s)"
  by (cases s) (auto simp: step4_unfold)

lemma step4_LF:
  assumes "replaceAll matchBlanks [SP] s = LF # t"
  shows "\<exists>cs. s = LF # cs \<and> t = replaceAll matchBlanks [SP] cs"
proof (cases s)
  case Nil with assms show ?thesis by simp
next
  case (Cons c cs)
  with assms show ?thesis by (auto simp: step4_unfold split: if_splits)
qed

lemma step4_nf: "noPair BB (replaceAll matchBlanks [SP] s)"
proof (induction s rule: length_induct)
  case (1 s)
  show ?case
  proof (cases s)
    case Nil then show ?thesis by simp
  next
    case (Cons c cs)
    show ?thesis
    proof (cases "isBlank c \<and> cs \<noteq> [] \<and> isBlank (hd cs)")
      case True
      let ?rest = "dropWhile isBlank cs"
      let ?h = "replaceAll matchBlanks [SP] ?rest"
      have "length ?rest < length s"
        using length_dropWhile_le [of isBlank cs] by (simp add: Cons)
      with 1 have ih: "noPair BB ?h" by blast
      have "?h = [] \<or> \<not> isBlank (hd ?h)"
      proof (cases "?rest = []")
        case r: True
        have "?h = []" by (simp only: r replaceAll.simps(1))
        then show ?thesis by blast
      next
        case False
        then have "\<not> isBlank (hd ?rest)" using hd_dropWhile [of isBlank cs] by blast
        with False show ?thesis by (simp add: step4_hd_blank)
      qed
      with ih have "noPair BB (SP # ?h)" by (simp only: noPair_Cons) blast
      with True show ?thesis by (simp add: Cons step4_unfold)
    next
      case False
      have "length cs < length s" by (simp add: Cons)
      with 1 have ih: "noPair BB (replaceAll matchBlanks [SP] cs)" by blast
      have "replaceAll matchBlanks [SP] cs = [] \<or> \<not> BB c (hd (replaceAll matchBlanks [SP] cs))"
      proof (cases "cs = []")
        case True then show ?thesis by simp
      next
        case ne: False
        with False have "\<not> (isBlank c \<and> isBlank (hd cs))" by simp
        with ne show ?thesis by (simp add: step4_hd_blank)
      qed
      with ih False show ?thesis by (simp only: Cons step4_unfold if_False noPair_Cons)
    qed
  qed
qed

lemma step4_pres_BL: "noPair BL s \<Longrightarrow> noPair BL (replaceAll matchBlanks [SP] s)"
proof (induction s rule: length_induct)
  case (1 s)
  show ?case
  proof (cases s)
    case Nil then show ?thesis by simp
  next
    case (Cons c cs)
    from "1.prems" Cons have all: "noPair BL (c # cs)" and cs: "noPair BL cs"
      and hd: "cs = [] \<or> \<not> BL c (hd cs)"
      by (auto simp: noPair_Cons)
    show ?thesis
    proof (cases "isBlank c \<and> cs \<noteq> [] \<and> isBlank (hd cs)")
      case True
      let ?rest = "dropWhile isBlank cs"
      let ?h = "replaceAll matchBlanks [SP] ?rest"
      have "length ?rest < length s"
        using length_dropWhile_le [of isBlank cs] by (simp add: Cons)
      moreover have "noPair BL ?rest" using cs by (rule noPair_dropWhile)
      ultimately have ih: "noPair BL ?h" using 1 by blast
      have "?h = [] \<or> hd ?h \<noteq> LF"
      proof (rule ccontr)
        assume "\<not> ?thesis"
        then have "?h = LF # tl ?h" by (metis list.collapse)
        from step4_LF [OF this] have "take 1 ?rest = [LF]" by auto
        with noTrailing_blank_run [OF all] True show False by blast
      qed
      with ih have "noPair BL (SP # ?h)" by (simp only: noPair_Cons) blast
      with True show ?thesis by (simp add: Cons step4_unfold)
    next
      case False
      have "length cs < length s" by (simp add: Cons)
      with 1 cs have ih: "noPair BL (replaceAll matchBlanks [SP] cs)" by blast
      have "replaceAll matchBlanks [SP] cs = [] \<or> \<not> BL c (hd (replaceAll matchBlanks [SP] cs))"
      proof (rule ccontr)
        assume a: "\<not> ?thesis"
        then have "replaceAll matchBlanks [SP] cs = LF # tl (replaceAll matchBlanks [SP] cs)"
          by (metis list.collapse)
        from step4_LF [OF this] obtain ds where "cs = LF # ds" by blast
        with hd a show False by auto
      qed
      with ih False show ?thesis by (simp only: Cons step4_unfold if_False noPair_Cons)
    qed
  qed
qed

lemma step4_take2:
  assumes "take 2 (replaceAll matchBlanks [SP] s) = [LF, LF]"
  shows "take 2 s = [LF, LF]"
proof -
  from assms obtain t where a: "replaceAll matchBlanks [SP] s = LF # t" and t: "take 1 t = [LF]"
    by (cases "replaceAll matchBlanks [SP] s") auto
  from step4_LF [OF a] obtain cs where s: "s = LF # cs" and t': "t = replaceAll matchBlanks [SP] cs"
    by blast
  from t obtain u where "t = LF # u" by (cases t) auto
  with t' have "replaceAll matchBlanks [SP] cs = LF # u" by simp
  from step4_LF [OF this] obtain ds where "cs = LF # ds" by blast
  with s show ?thesis by simp
qed

lemma step4_pres_triple: "noTriple s \<Longrightarrow> noTriple (replaceAll matchBlanks [SP] s)"
proof (induction s rule: length_induct)
  case (1 s)
  show ?case
  proof (cases s)
    case Nil then show ?thesis by simp
  next
    case (Cons c cs)
    from "1.prems" Cons have cs: "noTriple cs" and hd: "\<not> (c = LF \<and> take 2 cs = [LF, LF])"
      by (auto simp: noTriple_Cons)
    show ?thesis
    proof (cases "isBlank c \<and> cs \<noteq> [] \<and> isBlank (hd cs)")
      case True
      let ?rest = "dropWhile isBlank cs"
      have "length ?rest < length s"
        using length_dropWhile_le [of isBlank cs] by (simp add: Cons)
      moreover have "noTriple ?rest" using cs by (rule noTriple_dropWhile)
      ultimately have "noTriple (replaceAll matchBlanks [SP] ?rest)" using 1 by blast
      then have "noTriple (SP # replaceAll matchBlanks [SP] ?rest)" by (simp add: noTriple_Cons)
      with True show ?thesis by (simp add: Cons step4_unfold)
    next
      case False
      have "length cs < length s" by (simp add: Cons)
      with 1 cs have ih: "noTriple (replaceAll matchBlanks [SP] cs)" by blast
      have "\<not> (c = LF \<and> take 2 (replaceAll matchBlanks [SP] cs) = [LF, LF])"
        using hd step4_take2 by blast
      with ih False show ?thesis by (simp only: Cons step4_unfold if_False noTriple_Cons; simp)
    qed
  qed
qed

subsection \<open>Carriage return and line feed\<close>

lemma step1_id: "noPair CL s \<Longrightarrow> replaceAll matchCRLF r s = s"
proof (induction s)
  case Nil then show ?case by simp
next
  case (Cons c cs)
  from Cons.prems have "noPair CL cs" by (simp add: noPair_Cons)
  with Cons.IH have "replaceAll matchCRLF r cs = cs" by simp
  moreover have "matchCRLF (c # cs) = None"
    using Cons.prems by (cases cs) (auto simp: matchCRLF_def)
  ultimately show ?case by (simp add: replaceAll.simps(2))
qed

subsection \<open>Lengths and code units of a result\<close>

lemma replaceAll_length:
  assumes "\<And>t k. m t = Some k \<Longrightarrow> length r \<le> k \<and> k \<le> length t"
  shows "length (replaceAll m r s) \<le> length s"
proof (induction s rule: length_induct)
  case (1 s)
  show ?case
  proof (cases s)
    case Nil then show ?thesis by simp
  next
    case (Cons c cs)
    show ?thesis
    proof (cases "m (c # cs)")
      case None
      have "length cs < length s" by (simp add: Cons)
      with 1 have "length (replaceAll m r cs) \<le> length cs" by blast
      with None show ?thesis by (simp add: Cons replaceAll.simps(2))
    next
      case (Some k)
      from assms [OF Some] have k: "length r \<le> k" "k \<le> Suc (length cs)" by auto
      have "length (drop (k - 1) cs) < length s" by (simp add: Cons)
      with 1 have "length (replaceAll m r (drop (k - 1) cs)) \<le> length (drop (k - 1) cs)" by blast
      with k Some show ?thesis by (simp add: Cons replaceAll.simps(2))
    qed
  qed
qed

lemma step1_shorter:
  "\<not> noPair CL s \<Longrightarrow> length (replaceAll matchCRLF [LF] s) < length s"
proof (induction s)
  case Nil then show ?case by simp
next
  case (Cons c cs)
  have le: "length (replaceAll matchCRLF [LF] t) \<le> length t" for t
    by (rule replaceAll_length) (auto simp: matchCRLF_def split: list.splits if_splits)
  show ?case
  proof (cases "matchCRLF (c # cs)")
    case None
    then have "cs = [] \<or> \<not> CL c (hd cs)" by (cases cs) (auto simp: matchCRLF_def split: if_splits)
    with Cons.prems have "\<not> noPair CL cs" by (auto simp: noPair_Cons)
    from Cons.IH [OF this] None show ?thesis by (simp add: replaceAll.simps(2))
  next
    case (Some k)
    then have k: "k = 2" and "cs \<noteq> []" by (cases cs; auto simp: matchCRLF_def split: if_splits)+
    with le [of "drop 1 cs"] Some show ?thesis by (cases cs) (auto simp: replaceAll.simps(2))
  qed
qed

lemma step2_length: "length (replaceAll matchTrailing [LF] s) \<le> length s"
proof (rule replaceAll_length)
  fix t k assume "matchTrailing t = Some k"
  then have k: "k = length (takeWhile isBlank t) + 1" and "1 \<le> length (takeWhile isBlank t)"
    and "take 1 (drop (length (takeWhile isBlank t)) t) = [LF]"
    by (auto simp: matchTrailing_def Let_def split: if_splits)
  then have "drop (length (takeWhile isBlank t)) t \<noteq> []" by auto
  then have "length (takeWhile isBlank t) < length t" by simp
  with k show "length [LF] \<le> k \<and> k \<le> length t" by simp
qed

lemma step3_length: "length (replaceAll matchNewlines [LF, LF] s) \<le> length s"
proof (rule replaceAll_length)
  fix t k assume "matchNewlines t = Some k"
  then have "k = length (takeWhile (\<lambda>c. c = LF) t)" "3 \<le> k"
    by (auto simp: matchNewlines_def Let_def split: if_splits)
  then show "length [LF, LF] \<le> k \<and> k \<le> length t"
    using length_takeWhile_le [of "\<lambda>c. c = LF" t] by simp
qed

lemma step4_length: "length (replaceAll matchBlanks [SP] s) \<le> length s"
proof (rule replaceAll_length)
  fix t k assume "matchBlanks t = Some k"
  then have "k = length (takeWhile isBlank t)" "2 \<le> k"
    by (auto simp: matchBlanks_def Let_def split: if_splits)
  then show "length [SP] \<le> k \<and> k \<le> length t"
    using length_takeWhile_le [of isBlank t] by simp
qed

lemma replaceAll_set: "set (replaceAll m r s) \<subseteq> set s \<union> set r"
proof (induction s rule: length_induct)
  case (1 s)
  show ?case
  proof (cases s)
    case Nil then show ?thesis by simp
  next
    case (Cons c cs)
    show ?thesis
    proof (cases "m (c # cs)")
      case None
      have "length cs < length s" by (simp add: Cons)
      with 1 have "set (replaceAll m r cs) \<subseteq> set cs \<union> set r" by blast
      with None show ?thesis by (auto simp: Cons replaceAll.simps(2))
    next
      case (Some k)
      have "length (drop (k - 1) cs) < length s" by (simp add: Cons)
      with 1 have "set (replaceAll m r (drop (k - 1) cs)) \<subseteq> set (drop (k - 1) cs) \<union> set r" by blast
      moreover have "set (drop (k - 1) cs) \<subseteq> set cs" by (rule set_drop_subset)
      ultimately show ?thesis using Some by (auto simp: Cons replaceAll.simps(2))
    qed
  qed
qed

subsection \<open>Trimming\<close>

lemma rev_dropWhile_rev_take:
  "rev (dropWhile Q (rev xs)) = take (length (dropWhile Q (rev xs))) xs"
proof -
  have "xs = rev (dropWhile Q (rev xs)) @ rev (takeWhile Q (rev xs))"
    by (metis rev_append rev_rev_ident takeWhile_dropWhile_id)
  then have "take (length (rev (dropWhile Q (rev xs)))) xs = rev (dropWhile Q (rev xs))"
    by (metis append_eq_conv_conj)
  then show ?thesis by simp
qed

lemma trim_take: "\<exists>n. trim s = take n (dropWhile isWs s)"
  unfolding trim_def using rev_dropWhile_rev_take [of isWs "dropWhile isWs s"] by blast

lemma noPair_trim: "noPair P s \<Longrightarrow> noPair P (trim s)"
  using trim_take [of s] noPair_take [OF noPair_dropWhile, of P s] by auto

lemma noTriple_trim: "noTriple s \<Longrightarrow> noTriple (trim s)"
  using trim_take [of s] noTriple_take [OF noTriple_dropWhile, of s] by auto

lemma dropWhile_hd_id: "xs = [] \<or> \<not> Q (hd xs) \<Longrightarrow> dropWhile Q xs = xs"
  by (cases xs) auto

lemma trim_idem: "trim (trim s) = trim s"
proof -
  let ?t = "dropWhile isWs s"
  let ?u = "trim s"
  obtain n where u: "?u = take n ?t" using trim_take by blast
  have "?u = [] \<or> \<not> isWs (hd ?u)"
  proof (cases "?u = []")
    case True then show ?thesis by simp
  next
    case False
    with u have "hd ?u = hd ?t" and "?t \<noteq> []" using hd_take_nonempty [of n ?t] by auto
    then show ?thesis using hd_dropWhile [of isWs s] by simp
  qed
  then have a: "dropWhile isWs ?u = ?u" by (rule dropWhile_hd_id)
  have b: "dropWhile isWs (rev ?u) = rev ?u" by (simp add: trim_def)
  show ?thesis
    by (subst (1) trim_def) (simp only: a b rev_rev_ident)
qed

lemma set_trim: "set (trim s) \<subseteq> set s"
proof -
  have "set (trim s) \<subseteq> set (dropWhile isWs s)"
    unfolding trim_def by (auto dest: set_dropWhileD)
  then show ?thesis by (auto dest: set_dropWhileD)
qed

subsection \<open>The normal form of a result\<close>

lemma noCR_noPair: "CR \<notin> set s \<Longrightarrow> noPair CL s"
  by (induction s) (auto simp: noPair_Cons)

lemma normalizeWhitespace_nf:
  "noPair BL (normalizeWhitespace x) \<and> noTriple (normalizeWhitespace x)
   \<and> noPair BB (normalizeWhitespace x) \<and> trim (normalizeWhitespace x) = normalizeWhitespace x"
proof -
  let ?s = "case x of None \<Rightarrow> [] | Some t \<Rightarrow> t"
  let ?A = "replaceAll matchCRLF [LF] ?s"
  let ?B = "replaceAll matchTrailing [LF] ?A"
  let ?C = "replaceAll matchNewlines [LF, LF] ?B"
  let ?D = "replaceAll matchBlanks [SP] ?C"
  have y: "normalizeWhitespace x = trim ?D" by (simp add: normalizeWhitespace_def)
  have b: "noPair BL ?B" by (rule step2_nf)
  have c: "noPair BL ?C" "noTriple ?C" using b by (auto intro: step3_pres step3_nf)
  have d: "noPair BL ?D" "noTriple ?D" "noPair BB ?D"
    using c by (auto intro: step4_pres_BL step4_pres_triple step4_nf)
  show ?thesis unfolding y using d by (auto intro: noPair_trim noTriple_trim trim_idem)
qed

lemma normalizeWhitespace_fixed:
  assumes "noPair CL (normalizeWhitespace x)"
  shows "normalizeWhitespace (Some (normalizeWhitespace x)) = normalizeWhitespace x"
proof -
  let ?y = "normalizeWhitespace x"
  from normalizeWhitespace_nf [of x] have nf: "noPair BL ?y" "noTriple ?y" "noPair BB ?y" "trim ?y = ?y"
    by auto
  have "normalizeWhitespace (Some ?y)
      = trim (replaceAll matchBlanks [SP] (replaceAll matchNewlines [LF, LF]
          (replaceAll matchTrailing [LF] (replaceAll matchCRLF [LF] ?y))))"
    by (simp add: normalizeWhitespace_def)
  also have "\<dots> = ?y"
    by (simp only: step1_id [OF assms] step2_id [OF nf(1)] step3_id [OF nf(2)] step4_id [OF nf(3)] nf(4))
  finally show ?thesis .
qed

lemma normalizeWhitespace_shorter:
  assumes "\<not> noPair CL y"
  shows "length (normalizeWhitespace (Some y)) < length y"
proof -
  let ?A = "replaceAll matchCRLF [LF] y"
  let ?B = "replaceAll matchTrailing [LF] ?A"
  let ?C = "replaceAll matchNewlines [LF, LF] ?B"
  let ?D = "replaceAll matchBlanks [SP] ?C"
  have "length (trim ?D) \<le> length ?D" by (rule length_trim)
  also have "\<dots> \<le> length ?C" by (rule step4_length)
  also have "\<dots> \<le> length ?B" by (rule step3_length)
  also have "\<dots> \<le> length ?A" by (rule step2_length)
  also have "\<dots> < length y" by (rule step1_shorter [OF assms])
  finally show ?thesis by (simp add: normalizeWhitespace_def)
qed

lemma normalizeWhitespace_noCR:
  assumes "CR \<notin> set t"
  shows "CR \<notin> set (normalizeWhitespace (Some t))"
proof -
  let ?A = "replaceAll matchCRLF [LF] t"
  let ?B = "replaceAll matchTrailing [LF] ?A"
  let ?C = "replaceAll matchNewlines [LF, LF] ?B"
  let ?D = "replaceAll matchBlanks [SP] ?C"
  have "set ?A \<subseteq> set t \<union> {LF}" using replaceAll_set [of matchCRLF "[LF]" t] by simp
  moreover have "set ?B \<subseteq> set ?A \<union> {LF}" using replaceAll_set [of matchTrailing "[LF]" ?A] by simp
  moreover have "set ?C \<subseteq> set ?B \<union> {LF}" using replaceAll_set [of matchNewlines "[LF, LF]" ?B] by simp
  moreover have "set ?D \<subseteq> set ?C \<union> {SP}" using replaceAll_set [of matchBlanks "[SP]" ?C] by simp
  moreover have "set (trim ?D) \<subseteq> set ?D" by (rule set_trim)
  ultimately have "set (trim ?D) \<subseteq> set t \<union> {LF, SP}" by blast
  with assms show ?thesis by (auto simp: normalizeWhitespace_def)
qed

text \<open>
  Claim C5, as the code has it: normalizing a result again returns it exactly when
  the result holds no carriage return directly before a line feed. That is so for
  every string without carriage returns. An undefined or empty input gives the empty
  string.
\<close>

theorem normalize_idempotent_without_crlf:
  "(normalizeWhitespace (Some (normalizeWhitespace s)) = normalizeWhitespace s
      \<longleftrightarrow> noPair (\<lambda>a b. a = CR \<and> b = LF) (normalizeWhitespace s))
   \<and> (\<forall>t. CR \<notin> set t \<longrightarrow>
         normalizeWhitespace (Some (normalizeWhitespace (Some t))) = normalizeWhitespace (Some t))
   \<and> normalizeWhitespace None = [] \<and> normalizeWhitespace (Some []) = []"
proof -
  have a: "normalizeWhitespace (Some (normalizeWhitespace s)) = normalizeWhitespace s
      \<longleftrightarrow> noPair CL (normalizeWhitespace s)"
  proof
    assume eq: "normalizeWhitespace (Some (normalizeWhitespace s)) = normalizeWhitespace s"
    show "noPair CL (normalizeWhitespace s)"
    proof (rule ccontr)
      assume "\<not> noPair CL (normalizeWhitespace s)"
      from normalizeWhitespace_shorter [OF this] eq show False by simp
    qed
  next
    assume "noPair CL (normalizeWhitespace s)"
    then show "normalizeWhitespace (Some (normalizeWhitespace s)) = normalizeWhitespace s"
      by (rule normalizeWhitespace_fixed)
  qed
  have b: "\<forall>t. CR \<notin> set t \<longrightarrow>
         normalizeWhitespace (Some (normalizeWhitespace (Some t))) = normalizeWhitespace (Some t)"
    using normalizeWhitespace_noCR noCR_noPair normalizeWhitespace_fixed by blast
  have c: "normalizeWhitespace None = []" "normalizeWhitespace (Some []) = []"
    by (simp_all add: normalizeWhitespace_def trim_def)
  from a b c show ?thesis by blast
qed

theorem normalize_idempotent_without_crlf_witness:
  "CR \<notin> set [0x61 :: jschar, SP, TAB, LF, LF, LF, LF, SP, 0x62, TAB, TAB, 0x63, SP]
   \<and> normalizeWhitespace (Some [0x61, SP, TAB, LF, LF, LF, LF, SP, 0x62, TAB, TAB, 0x63, SP])
       = [0x61, LF, LF, SP, 0x62, SP, 0x63]
   \<and> normalizeWhitespace (Some [0x61, LF, LF, SP, 0x62, SP, 0x63]) = [0x61, LF, LF, SP, 0x62, SP, 0x63]"
  (is "?a \<and> ?b \<and> ?c")
proof -
  have a: ?a by simp
  have b: ?b by code_simp
  from normalize_idempotent_without_crlf [of "Some [0x61, SP, TAB, LF, LF, LF, LF, SP, 0x62, TAB, TAB, 0x63, SP]"] a
  have "normalizeWhitespace (Some (normalizeWhitespace (Some [0x61, SP, TAB, LF, LF, LF, LF, SP, 0x62, TAB, TAB, 0x63, SP])))
      = normalizeWhitespace (Some [0x61, SP, TAB, LF, LF, LF, LF, SP, 0x62, TAB, TAB, 0x63, SP])"
    by blast
  with a b show ?thesis by (simp only:) simp
qed

text \<open>
  Claim C5 as stated fails on mixed line endings: \<open>a CR CR LF b\<close> normalizes to
  \<open>a CR LF b\<close>, which normalizes to \<open>a LF b\<close>.
\<close>

theorem normalize_not_idempotent_counterexample:
  "normalizeWhitespace (Some [0x61, CR, CR, LF, 0x62]) = [0x61, CR, LF, 0x62]
   \<and> normalizeWhitespace (Some [0x61, CR, LF, 0x62]) = [0x61, LF, 0x62]
   \<and> normalizeWhitespace (Some (normalizeWhitespace (Some [0x61, CR, CR, LF, 0x62])))
       \<noteq> normalizeWhitespace (Some [0x61, CR, CR, LF, 0x62])"
  by code_simp

section \<open>Properties of the corpus signature\<close>

subsection \<open>Words that commute around a separator\<close>

lemma append_eq_le:
  "xs @ ys = zs @ ts \<Longrightarrow> length xs \<le> length zs \<Longrightarrow> \<exists>us. zs = xs @ us \<and> ys = us @ ts"
proof (induction xs arbitrary: zs)
  case Nil
  then show ?case by simp
next
  case (Cons a xs)
  then obtain b zs' where zs: "zs = b # zs'" by (cases zs) auto
  with Cons.prems have "a = b" "xs @ ys = zs' @ ts" "length xs \<le> length zs'" by auto
  with Cons.IH [of zs'] zs show ?case by auto
qed

lemma conjugate: "X @ Z = Z @ Y \<Longrightarrow> \<exists>p q. X = p @ q \<and> Y = q @ p"
proof (induction "length Z" arbitrary: Z rule: less_induct)
  case less
  show ?case
  proof (cases "length Z \<le> length X")
    case True
    from less.prems have "Z @ Y = X @ Z" by simp
    from append_eq_le [OF this True] obtain q where "X = Z @ q" "Y = q @ Z" by blast
    then show ?thesis by blast
  next
    case False
    then have "length X \<le> length Z" by simp
    from append_eq_le [OF less.prems this] obtain Z' where Z: "Z = X @ Z'" and e: "Z = Z' @ Y"
      by blast
    show ?thesis
    proof (cases "X = []")
      case True
      with Z e have "Y = []" by simp
      with True show ?thesis by simp
    next
      case ne: False
      from Z e have "X @ Z' = Z' @ Y" by simp
      moreover from ne Z have "length Z' < length Z" by simp
      ultimately show ?thesis by (rule less.hyps [rotated])
    qed
  qed
qed

lemma rotation:
  assumes eq: "u @ [c, c] @ Z = Z @ [c, c] @ w"
    and u: "u \<noteq> []" "last u \<noteq> c" and w: "w \<noteq> []" "last w \<noteq> c" and ne: "u \<noteq> w"
  shows "\<exists>p t. u = p @ [c, c] @ t \<and> w = t @ [c, c] @ p"
proof -
  from eq have "(u @ [c, c]) @ Z = Z @ ([c, c] @ w)" by simp
  from conjugate [OF this] obtain p q where 1: "u @ [c, c] = p @ q" and 2: "[c, c] @ w = q @ p"
    by blast
  show ?thesis
  proof (cases q)
    case Nil
    with 1 2 have "u @ [c, c] = [c, c] @ w" by simp
    then have "last (u @ [c, c]) = last ([c, c] @ w)" by (rule arg_cong)
    with w show ?thesis by simp
  next
    case (Cons a q1)
    show ?thesis
    proof (cases q1)
      case Nil
      with Cons 2 have p: "p = c # w" and "a = c" by auto
      with 1 Cons Nil have "u @ [c, c] = (c # w) @ [c]" by simp
      then have "butlast (u @ [c, c]) = butlast ((c # w) @ [c])" by (rule arg_cong)
      then have "u @ [c] = c # w" by (simp add: butlast_append)
      then have "last (u @ [c]) = last (c # w)" by (rule arg_cong)
      with w show ?thesis by simp
    next
      case c2: (Cons b q')
      with Cons 2 have a: "a = c" "b = c" and wq: "w = q' @ p" by auto
      from 1 Cons c2 a have 3: "u @ [c, c] = p @ [c, c] @ q'" by simp
      show ?thesis
      proof (cases q' rule: rev_cases)
        case Nil
        with 3 wq ne show ?thesis by simp
      next
        case (snoc q2 e)
        show ?thesis
        proof (cases q2 rule: rev_cases)
          case Nil
          with 3 snoc have "u @ [c, c] = (p @ [c, c]) @ [e]" by simp
          then have "butlast (u @ [c, c]) = butlast ((p @ [c, c]) @ [e])" by (rule arg_cong)
          then have "u @ [c] = p @ [c, c]" by (simp add: butlast_append)
          then have "butlast (u @ [c]) = butlast (p @ [c, c])" by (rule arg_cong)
          then have "u = p @ [c]" by (simp add: butlast_append)
          with u show ?thesis by simp
        next
          case s2: (snoc t d)
          from 3 have h: "u @ [c, c] = (p @ [c, c] @ t) @ [d, e]"
            unfolding snoc s2 by (simp only: append_assoc append_Cons append_Nil)
          have "(u @ [c, c] = (p @ [c, c] @ t) @ [d, e]) = (u = p @ [c, c] @ t \<and> [c, c] = [d, e])"
            by (rule append_eq_append_conv) simp
          with h have up: "u = p @ [c, c] @ t" and d: "d = c" and e: "e = c" by auto
          from wq snoc s2 have "w = t @ [d, e] @ p" by simp
          then have "w = t @ [c, c] @ p" unfolding d e .
          with up show ?thesis by blast
        qed
      qed
    qed
  qed
qed

lemma append_eq_cases:
  assumes "xs @ ys = zs @ ts"
  shows "(\<exists>us. zs = xs @ us \<and> ys = us @ ts) \<or> (\<exists>us. xs = zs @ us \<and> ts = us @ ys)"
proof (cases "length xs \<le> length zs")
  case True
  from append_eq_le [OF assms True] show ?thesis by blast
next
  case False
  then have "length zs \<le> length xs" by simp
  from append_eq_le [OF assms [symmetric] this] show ?thesis by blast
qed

lemma count_list_0: "c \<notin> set xs \<Longrightarrow> count_list xs c = 0"
  by (induction xs) auto

lemma count_list_pos: "c \<in> set xs \<Longrightarrow> 0 < count_list xs c"
  by (induction xs) auto

lemma word_eq_ordered:
  fixes c :: 'a
  assumes IH: "\<And>a' b' x' y'. length a' + length b' < n \<Longrightarrow>
      a' @ y' @ [c, c] @ b' = b' @ x' @ [c, c] @ a' \<Longrightarrow> c \<notin> set x' \<Longrightarrow> c \<notin> set y' \<Longrightarrow>
      x' \<noteq> [] \<Longrightarrow> y' \<noteq> [] \<Longrightarrow> x' = y'"
    and n: "n = length a + length b"
    and le: "length a \<le> length b"
    and eq: "a @ y @ [c, c] @ b = b @ x @ [c, c] @ a"
    and x: "c \<notin> set x" "x \<noteq> []" and y: "c \<notin> set y" "y \<noteq> []"
  shows "x = y"
proof -
  let ?A = "y @ [c, c]" and ?B = "x @ [c, c]"
  from eq have "length (a @ y @ [c, c] @ b) = length (b @ x @ [c, c] @ a)" by (rule arg_cong)
  then have len: "length x = length y" by simp
  from eq have "a @ (?A @ b) = b @ (?B @ a)" by simp
  from append_eq_le [OF this le] obtain c0 where b: "b = a @ c0" and 1: "?A @ b = c0 @ ?B @ a"
    by blast
  show ?thesis
  proof (cases "c0 = []")
    case True
    with b 1 have "?A @ a = ?B @ a" by simp
    then show ?thesis by simp
  next
    case c0: False
    show ?thesis
    proof (cases "length ?A \<le> length c0")
      case True
      from 1 have "?A @ b = c0 @ (?B @ a)" by simp
      from append_eq_le [OF this True] obtain c' where c': "c0 = ?A @ c'" and 2: "b = c' @ ?B @ a"
        by blast
      from b c' 2 have "a @ y @ [c, c] @ c' = c' @ x @ [c, c] @ a" by simp
      moreover from b c' n have "length a + length c' < n" by simp
      ultimately show ?thesis using x y by (intro IH [of a c' y x]) simp_all
    next
      case False
      then have l: "length c0 \<le> length ?A" by simp
      from 1 have "c0 @ (?B @ a) = ?A @ b" by simp
      from append_eq_le [OF this l] obtain A2 where A: "?A = c0 @ A2" and 3: "?B @ a = A2 @ b"
        by blast
      from A False have A2: "A2 \<noteq> []" by auto
      from A have "length ?A = length c0 + length A2" by (metis length_append)
      with len have "length A2 \<le> length ?B" by simp
      from 3 have "A2 @ b = ?B @ a" by simp
      from append_eq_le [OF this \<open>length A2 \<le> length ?B\<close>] obtain B2
        where B: "?B = A2 @ B2" and 4: "b = B2 @ a" by blast
      from b 4 have "a @ c0 = B2 @ a" by simp
      then have "count_list (a @ c0) c = count_list (B2 @ a) c" by (rule arg_cong)
      then have cnt: "count_list c0 c = count_list B2 c" by simp
      from B have "length ?B = length A2 + length B2" by (metis length_append)
      with \<open>length ?A = length c0 + length A2\<close> len have lB2: "length B2 = length c0" by simp
      with c0 have B2: "B2 \<noteq> []" by auto
      from B B2 have "last B2 = c" by (metis last_appendR last_snoc append_assoc append_Cons append_Nil)
      with B2 have "c \<in> set B2" by (metis last_in_set)
      then have pos: "0 < count_list B2 c" by (rule count_list_pos)
      from A have "c0 @ A2 = y @ [c, c]" by simp
      from append_eq_cases [OF this]
      consider us where "y = c0 @ us" | us where "c0 = y @ us" "[c, c] = us @ A2" by blast
      then show ?thesis
      proof cases
        case 1
        with y have "c \<notin> set c0" by auto
        then have "count_list c0 c = 0" by (rule count_list_0)
        with cnt pos show ?thesis by simp
      next
        case 2
        from 2(2) A2 have "us = [] \<or> us = [c]"
          by (cases us; cases "tl us") auto
        then show ?thesis
        proof
          assume "us = []"
          with 2 y have "c \<notin> set c0" by auto
          then have "count_list c0 c = 0" by (rule count_list_0)
          with cnt pos show ?thesis by simp
        next
          assume us: "us = [c]"
          from us 2(1) have c0y: "c0 = y @ [c]" by simp
          have "count_list (y @ [c]) c = 1" using y(1) by (simp add: count_list_0)
          then have one: "count_list c0 c = 1" unfolding c0y .
          from y(2) have "2 \<le> length (y @ [c])" by (cases y) simp_all
          then have "2 \<le> length c0" unfolding c0y .
          with lB2 have l2: "2 \<le> length B2" by simp
          from B have "A2 @ B2 = x @ [c, c]" by simp
          from append_eq_cases [OF this]
          consider vs where "x = A2 @ vs" "B2 = vs @ [c, c]" | vs where "A2 = x @ vs" "[c, c] = vs @ B2"
            by blast
          then show ?thesis
          proof cases
            case 1
            then have "2 \<le> count_list B2 c" by simp
            with cnt one show ?thesis by simp
          next
            case 2
            with l2 have "B2 = [c, c]" by (cases vs; cases "tl vs") auto
            then have "count_list B2 c = 2" by simp
            with cnt one show ?thesis by simp
          qed
        qed
      qed
    qed
  qed
qed

lemma word_eq:
  fixes c :: 'a
  assumes "a @ y @ [c, c] @ b = b @ x @ [c, c] @ a"
    and "c \<notin> set x" "c \<notin> set y" "x \<noteq> []" "y \<noteq> []"
  shows "x = y"
  using assms
proof (induction "length a + length b" arbitrary: a b x y rule: less_induct)
  case less
  define n where "n = length a + length b"
  have IH: "\<And>a' b' x' y'. length a' + length b' < n \<Longrightarrow>
      a' @ y' @ [c, c] @ b' = b' @ x' @ [c, c] @ a' \<Longrightarrow> c \<notin> set x' \<Longrightarrow> c \<notin> set y' \<Longrightarrow>
      x' \<noteq> [] \<Longrightarrow> y' \<noteq> [] \<Longrightarrow> x' = y'"
    unfolding n_def using less.hyps by blast
  show ?case
  proof (cases "length a \<le> length b")
    case True
    from IH n_def True less.prems(1) less.prems(2) less.prems(4) less.prems(3) less.prems(5)
    show ?thesis by (rule word_eq_ordered)
  next
    case False
    then have le: "length b \<le> length a" by simp
    have n': "n = length b + length a" unfolding n_def by (rule add.commute)
    from less.prems(1) have eq': "b @ x @ [c, c] @ a = a @ y @ [c, c] @ b" by (rule sym)
    from IH n' le eq' less.prems(3) less.prems(5) less.prems(2) less.prems(4)
    have "y = x" by (rule word_eq_ordered)
    then show ?thesis by (rule sym)
  qed
qed

lemma token_clash:
  fixes c :: 'a
  assumes eq: "(N @ x) @ [c, c] @ Z = Z @ [c, c] @ (N @ y)"
    and x: "c \<notin> set x" "x \<noteq> []" and y: "c \<notin> set y" "y \<noteq> []"
  shows "x = y"
proof (rule ccontr)
  assume ne: "x \<noteq> y"
  let ?u = "N @ x" and ?w = "N @ y"
  have u: "?u \<noteq> []" "last ?u \<noteq> c" using x by (auto simp: last_append)
  have w: "?w \<noteq> []" "last ?w \<noteq> c" using y by (auto simp: last_append)
  from ne have "?u \<noteq> ?w" by simp
  from rotation [OF eq u w this] obtain p t where
    1: "N @ x = p @ [c, c] @ t" and 2: "N @ y = t @ [c, c] @ p" by blast
  have split: "\<exists>vs. N = a @ [c, c] @ vs \<and> b = vs @ z"
    if h: "N @ z = a @ [c, c] @ b" and z: "c \<notin> set z" for a b z
  proof -
    from append_eq_cases [OF h]
    consider us where "a = N @ us" "z = us @ [c, c] @ b" | us where "N = a @ us" "[c, c] @ b = us @ z"
      by blast
    then show ?thesis
    proof cases
      case 1
      with z show ?thesis by simp
    next
      case 2
      from append_eq_cases [OF 2(2)]
      consider vs where "us = [c, c] @ vs" "b = vs @ z" | vs where "[c, c] = us @ vs" "z = vs @ b"
        by blast
      then show ?thesis
      proof cases
        case 1
        with 2 show ?thesis by simp
      next
        case b: 2
        show ?thesis
        proof (cases "vs = []")
          case True
          with b 2 show ?thesis by simp
        next
          case False
          from b(1) have "set vs \<subseteq> {c}" by (metis Un_upper2 set_append empty_set list.simps(15) insert_absorb2)
          with False have "c \<in> set vs" by (cases vs) auto
          with b(2) z show ?thesis by simp
        qed
      qed
    qed
  qed
  from split [OF 1 x(1)] obtain vs where N1: "N = p @ [c, c] @ vs" and t: "t = vs @ x" by blast
  from split [OF 2 y(1)] obtain ws where N2: "N = t @ [c, c] @ ws" and p: "p = ws @ y" by blast
  from N1 N2 t p have "ws @ y @ [c, c] @ vs = vs @ x @ [c, c] @ ws" by simp
  from word_eq [OF this x(1) y(1) x(2) y(2)] ne show False by simp
qed

subsection \<open>Joining and inserting\<close>

lemma join_prefix:
  "Y \<noteq> [] \<Longrightarrow> join sep (P @ Y) = concat (map (\<lambda>p. p @ sep) P) @ join sep Y"
proof (induction P)
  case Nil then show ?case by simp
next
  case (Cons a P)
  then obtain b Q where "P @ Y = b # Q" by (cases "P @ Y") auto
  with Cons show ?case by simp
qed

lemma join_Cons_concat: "join sep (x # R) = x @ concat (map (\<lambda>r. sep @ r) R)"
  by (induction R arbitrary: x) simp_all

lemma join_suffix:
  assumes "Y \<noteq> []"
  shows "join sep (Y @ R) = join sep Y @ concat (map (\<lambda>r. sep @ r) R)"
proof -
  from assms obtain a Y' where Y: "Y = a # Y'" by (cases Y) auto
  show ?thesis unfolding Y by (simp add: join_Cons_concat)
qed

lemma join_snoc: "M \<noteq> [] \<Longrightarrow> join sep (M @ [w]) = join sep M @ sep @ w"
  using join_suffix [of M sep "[w]"] by simp

lemma join_Cons: "M \<noteq> [] \<Longrightarrow> join sep (u # M) = u @ sep @ join sep M"
  by (cases M) simp_all

lemma length_join:
  "length (join sep xs) = sum_list (map length xs) + length sep * (length xs - 1)"
  by (induction sep xs rule: join.induct) simp_all

lemma insort_split:
  "insort x xs = takeWhile (\<lambda>y. \<not> x \<le> y) xs @ x # dropWhile (\<lambda>y. \<not> x \<le> y) xs"
  by (induction xs) simp_all

lemma takeWhile_weaker:
  "(\<And>y. P y \<Longrightarrow> Q y) \<Longrightarrow> takeWhile Q xs = takeWhile P xs @ takeWhile Q (dropWhile P xs)"
  by (induction xs) auto

lemma dropWhile_weaker:
  "(\<And>y. P y \<Longrightarrow> Q y) \<Longrightarrow> dropWhile Q xs = dropWhile Q (dropWhile P xs)"
  by (induction xs) auto

lemma insort_pair:
  fixes u w :: "'a::linorder"
  assumes "u < w"
  shows "\<exists>P M R. insort u T = P @ (u # M) @ R \<and> insort w T = P @ (M @ [w]) @ R"
proof -
  let ?P = "\<lambda>y. \<not> u \<le> y" and ?Q = "\<lambda>y. \<not> w \<le> y"
  have imp: "\<And>y. ?P y \<Longrightarrow> ?Q y" using assms by auto
  let ?rest = "dropWhile ?P T"
  have "insort u T = takeWhile ?P T @ (u # takeWhile ?Q ?rest) @ dropWhile ?Q ?rest"
    by (simp add: insort_split)
  moreover have "insort w T = takeWhile ?P T @ (takeWhile ?Q ?rest @ [w]) @ dropWhile ?Q ?rest"
    using takeWhile_weaker [of ?P ?Q T, OF imp] dropWhile_weaker [of ?P ?Q T, OF imp]
    by (simp add: insort_split)
  ultimately show ?thesis by blast
qed

lemma join_insort_clash:
  fixes c :: jschar
  assumes eq: "join [c, c] (insort (N @ x) T) = join [c, c] (insort (N @ y) T)"
    and x: "c \<notin> set x" "x \<noteq> []" and y: "c \<notin> set y" "y \<noteq> []"
  shows "x = y"
proof (rule ccontr)
  assume ne: "x \<noteq> y"
  have main: "False"
    if lt: "N @ x' < N @ y'" and e: "join [c, c] (insort (N @ x') T) = join [c, c] (insort (N @ y') T)"
      and x': "c \<notin> set x'" "x' \<noteq> []" and y': "c \<notin> set y'" "y' \<noteq> []" and n: "x' \<noteq> y'"
    for x' y'
  proof -
    from insort_pair [OF lt, of T] obtain P M R where
      1: "insort (N @ x') T = P @ ((N @ x') # M) @ R" and 2: "insort (N @ y') T = P @ (M @ [N @ y']) @ R"
      by blast
    let ?pre = "concat (map (\<lambda>p. p @ [c, c]) P)" and ?suf = "concat (map (\<lambda>r. [c, c] @ r) R)"
    have a1: "join [c, c] (P @ ((N @ x') # M) @ R) = ?pre @ join [c, c] (((N @ x') # M) @ R)"
      by (rule join_prefix) simp
    have a2: "join [c, c] (((N @ x') # M) @ R) = join [c, c] ((N @ x') # M) @ ?suf"
      by (rule join_suffix) simp
    have b1: "join [c, c] (P @ (M @ [N @ y']) @ R) = ?pre @ join [c, c] ((M @ [N @ y']) @ R)"
      by (rule join_prefix) simp
    have b2: "join [c, c] ((M @ [N @ y']) @ R) = join [c, c] (M @ [N @ y']) @ ?suf"
      by (rule join_suffix) simp
    from e have "?pre @ join [c, c] ((N @ x') # M) @ ?suf = ?pre @ join [c, c] (M @ [N @ y']) @ ?suf"
      unfolding 1 2 a1 a2 b1 b2 .
    then have j: "join [c, c] ((N @ x') # M) = join [c, c] (M @ [N @ y'])" by simp
    show False
    proof (cases "M = []")
      case True
      with j n show False by simp
    next
      case False
      with j have "(N @ x') @ [c, c] @ join [c, c] M = join [c, c] M @ [c, c] @ (N @ y')"
        by (simp add: join_Cons join_snoc)
      from token_clash [OF this x' y'] n show False by simp
    qed
  qed
  from ne have "N @ x \<noteq> N @ y" by simp
  then have "N @ x < N @ y \<or> N @ y < N @ x" by (rule linorder_neqE) blast+
  then show False
  proof
    assume "N @ x < N @ y"
    from main [OF this eq x y ne] show False .
  next
    assume "N @ y < N @ x"
    from main [OF this eq [symmetric] y x ne [symmetric]] show False .
  qed
qed

subsection \<open>The signature\<close>

lemma sort_cong_mset: "mset xs = mset ys \<Longrightarrow> sort xs = sort ys"
  by (metis sorted_list_of_multiset_mset)

lemma sum_length_sort: "sum_list (map length (sort xs)) = sum_list (map length xs)"
proof -
  have "sum_mset (mset (map length (sort xs))) = sum_mset (mset (map length xs))"
    by simp
  then show ?thesis by (simp only: sum_mset_sum_list)
qed

lemma js_colons: "js ''::'' = [0x3A, 0x3A]" and js_bar: "js ''|'' = [0x7C]"
  by (simp_all add: js_def)

lemma token_triple:
  "token str f = (\<lambda>(n, s, m). n @ js ''|'' @ str s @ js ''|'' @ str m) (name f, size_f f, mtimeMs f)"
  by (simp add: token_def)

lemma signature_permutation:
  assumes "mset (map (\<lambda>f. (name f, size_f f, mtimeMs f)) fs)
         = mset (map (\<lambda>f. (name f, size_f f, mtimeMs f)) gs)"
  shows "docSignature str fs = docSignature str gs"
proof -
  let ?tok = "\<lambda>(n, s, m). n @ js ''|'' @ str s @ js ''|'' @ str m"
  let ?tr = "\<lambda>f. (name f, size_f f, mtimeMs f)"
  have t: "map (token str) hs = map ?tok (map ?tr hs)" for hs :: "'a doc_file list"
    by (simp add: token_def)
  from assms have "image_mset ?tok (mset (map ?tr fs)) = image_mset ?tok (mset (map ?tr gs))"
    by (rule arg_cong)
  then have "mset (map (token str) fs) = mset (map (token str) gs)"
    unfolding t by (simp only: mset_map)
  then have "sort (map (token str) fs) = sort (map (token str) gs)" by (rule sort_cong_mset)
  then show ?thesis by (simp only: docSignature_def)
qed

lemma signature_length:
  "length (docSignature str fs)
     = sum_list (map (\<lambda>f. length (token str f)) fs) + 2 * (length fs - 1)"
  by (simp add: docSignature_def length_join sum_length_sort js_colons o_def)

lemma signature_insert:
  "docSignature str (pre @ f # post) \<noteq> docSignature str (pre @ post)"
proof -
  have "0 < length (token str f)" by (simp add: token_def js_bar)
  then have "length (docSignature str (pre @ post)) < length (docSignature str (pre @ f # post))"
    unfolding signature_length by (simp del: length_greater_0_conv)
  then show ?thesis by auto
qed

lemma sort_insert_middle: "sort (map g (pre @ f # post)) = insort (g f) (sort (map g (pre @ post)))"
proof -
  have "mset (map g (pre @ f # post)) = mset (g f # map g (pre @ post))" by simp
  then have "sort (map g (pre @ f # post)) = sort (g f # map g (pre @ post))" by (rule sort_cong_mset)
  then show ?thesis by simp
qed

lemma signature_change:
  assumes n: "name f' = name f"
    and d: "(str (size_f f'), str (mtimeMs f')) \<noteq> (str (size_f f), str (mtimeMs f))"
    and c: "\<forall>v\<in>{size_f f, mtimeMs f, size_f f', mtimeMs f'}. 0x3A \<notin> set (str v) \<and> 0x7C \<notin> set (str v)"
  shows "docSignature str (pre @ f' # post) \<noteq> docSignature str (pre @ f # post)"
proof
  assume eq: "docSignature str (pre @ f' # post) = docSignature str (pre @ f # post)"
  let ?x = "[0x7C] @ str (size_f f) @ [0x7C] @ str (mtimeMs f)"
  let ?y = "[0x7C] @ str (size_f f') @ [0x7C] @ str (mtimeMs f')"
  let ?T = "sort (map (token str) (pre @ post))"
  have u: "token str f = name f @ ?x" by (simp add: token_def js_bar)
  have w: "token str f' = name f @ ?y" by (simp add: token_def js_bar n)
  from eq have "join [0x3A, 0x3A] (insort (name f @ ?x) ?T) = join [0x3A, 0x3A] (insort (name f @ ?y) ?T)"
    unfolding docSignature_def sort_insert_middle u w js_colons by (rule sym)
  moreover have "0x3A \<notin> set ?x" "?x \<noteq> []" "0x3A \<notin> set ?y" "?y \<noteq> []" using c by simp_all
  ultimately have xy: "?x = ?y" by (rule join_insort_clash)
  then have e: "str (size_f f) @ 0x7C # str (mtimeMs f) = str (size_f f') @ 0x7C # str (mtimeMs f')"
    by simp
  from c have b: "0x7C \<notin> set (str (size_f f))" "0x7C \<notin> set (str (mtimeMs f))" by simp_all
  have "(str (size_f f) @ 0x7C # str (mtimeMs f) = str (size_f f') @ 0x7C # str (mtimeMs f'))
      = (str (size_f f) = str (size_f f') \<and> str (mtimeMs f) = str (mtimeMs f'))"
    using b by (rule append_Cons_eq_iff)
  with e have "str (size_f f) = str (size_f f') \<and> str (mtimeMs f) = str (mtimeMs f')"
    by (rule iffD1 [rotated])
  with d show False by simp
qed

text \<open>
  Claim C6: the signature depends only on the multiset of the triples of name, size and
  modification time, so it is the same in any listing order; a signature with one
  file more is longer, so adding or removing a file changes it; and it changes when
  the size or the modification time of one file changes. The numbers are written by
  \<open>str\<close>, as JavaScript writes them: without \<open>:\<close> or \<open>|\<close>, and differently
  for different numbers.
\<close>

theorem signature_stable:
  "(mset (map (\<lambda>f. (name f, size_f f, mtimeMs f)) fs)
      = mset (map (\<lambda>f. (name f, size_f f, mtimeMs f)) gs)
    \<longrightarrow> docSignature str fs = docSignature str gs)
   \<and> docSignature str (pre @ f # post) \<noteq> docSignature str (pre @ post)
   \<and> (name f' = name f
       \<and> (str (size_f f'), str (mtimeMs f')) \<noteq> (str (size_f f), str (mtimeMs f))
       \<and> (\<forall>v\<in>{size_f f, mtimeMs f, size_f f', mtimeMs f'}.
             0x3A \<notin> set (str v) \<and> 0x7C \<notin> set (str v))
      \<longrightarrow> docSignature str (pre @ f' # post) \<noteq> docSignature str (pre @ f # post))"
  using signature_permutation [of fs gs str] signature_insert [of str pre f post]
    signature_change [of f' f str pre post]
  by blast

theorem signature_stable_witness:
  "docSignature decimal [otherDoc, shortDoc] = docSignature decimal [shortDoc, otherDoc]
   \<and> docSignature decimal [shortDoc, otherDoc] = js ''a.txt|2|1::b.md|5|7''
   \<and> docSignature decimal [shortDoc, otherDoc] \<noteq> docSignature decimal [otherDoc]
   \<and> docSignature decimal [shortDoc\<lparr>size_f := 3\<rparr>, otherDoc] \<noteq> docSignature decimal [shortDoc, otherDoc]"
proof -
  have p: "mset (map (\<lambda>f. (name f, size_f f, mtimeMs f)) [otherDoc, shortDoc])
      = mset (map (\<lambda>f. (name f, size_f f, mtimeMs f)) [shortDoc, otherDoc])"
    by (simp add: add.commute)
  have h: "name (shortDoc\<lparr>size_f := 3\<rparr>) = name shortDoc
      \<and> (decimal (size_f (shortDoc\<lparr>size_f := 3\<rparr>)), decimal (mtimeMs (shortDoc\<lparr>size_f := 3\<rparr>)))
          \<noteq> (decimal (size_f shortDoc), decimal (mtimeMs shortDoc))
      \<and> (\<forall>v\<in>{size_f shortDoc, mtimeMs shortDoc, size_f (shortDoc\<lparr>size_f := 3\<rparr>),
               mtimeMs (shortDoc\<lparr>size_f := 3\<rparr>)}.
            0x3A \<notin> set (decimal v) \<and> 0x7C \<notin> set (decimal v))"
    by (simp add: shortDoc_def decimal.simps)
  have v: "docSignature decimal [shortDoc, otherDoc] = js ''a.txt|2|1::b.md|5|7''"
    by code_simp
  from signature_stable [of "[otherDoc, shortDoc]" "[shortDoc, otherDoc]" decimal "[]" shortDoc
      "[otherDoc]" "shortDoc\<lparr>size_f := 3\<rparr>"] p h v
  show ?thesis by simp
qed

end
